theory Spec2Isabelle
  imports Main "HOL-Library.Word"
begin

unbundle bit_operations_syntax

section \<open>Bit-parallel pattern match vectors (jaro\_winkler/details/common.hpp)\<close>

text \<open>
  The three containers of \<^verbatim>\<open>common.hpp\<close> are embedded as they are written:
  \<^item> \<^verbatim>\<open>BitvectorHashmap\<close>: 128 slots \<^verbatim>\<open>(key, value)\<close> of \<^verbatim>\<open>uint64_t\<close>, open
    addressing with the perturbation probe of \<^verbatim>\<open>lookup\<close>;
  \<^item> \<^verbatim>\<open>PatternMatchVector\<close>: one hashmap and a direct table of 256 masks;
  \<^item> \<^verbatim>\<open>BlockPatternMatchVector\<close>: a vector of hashmaps, a vector of masks and
    \<^verbatim>\<open>m_block_count\<close>.

  A character code (the template parameter \<^verbatim>\<open>CharT\<close>) is modelled by its integer value;
  the cast \<^verbatim>\<open>(uint64_t)key\<close> is \<open>word_of_int\<close>. The index \<^verbatim>\<open>i\<close> and the variable
  \<^verbatim>\<open>perturb\<close> of \<^verbatim>\<open>lookup\<close> are \<^verbatim>\<open>int64_t\<close> in the source: they are integers here, with
  the signed overflow of \<^verbatim>\<open>+\<close>, the truncating \<^verbatim>\<open>%\<close> and the arithmetic \<^verbatim>\<open>>>\<close> written out.

  C++ leaves some executions undefined. Each of them is a value of the model:
  an index outside an array, a signed overflow, a shift by a count outside \<open>0..63\<close>
  and a failed \<^verbatim>\<open>assert\<close> are the four \<open>fault\<close>s. A loop that never returns is
  \<open>None\<close>.
\<close>

subsection \<open>Outcomes\<close>

datatype fault = OutOfBounds | SignedOverflow | ShiftOutOfRange | AssertionFailed

type_synonym 'a outcome = "(fault + 'a) option"

fun and_then :: "'a outcome \<Rightarrow> ('a \<Rightarrow> 'b outcome) \<Rightarrow> 'b outcome" where
  "and_then None f = None"
| "and_then (Some (Inl e)) f = Some (Inl e)"
| "and_then (Some (Inr x)) f = f x"

definition done_with :: "'a \<Rightarrow> 'a outcome" where
  "done_with x = Some (Inr x)"

definition fails :: "fault \<Rightarrow> 'a outcome" where
  "fails e = Some (Inl e)"

subsection \<open>Integer arithmetic of C++\<close>

type_synonym u64 = "64 word"

definition in_int64 :: "int \<Rightarrow> bool" where
  "in_int64 x \<longleftrightarrow> - (2 ^ 63) \<le> x \<and> x < 2 ^ 63"

text \<open>\<^verbatim>\<open>a / b\<close> and \<^verbatim>\<open>a % b\<close> on signed integers truncate towards zero.\<close>

definition c_div :: "int \<Rightarrow> int \<Rightarrow> int" where
  "c_div a b = sgn a * sgn b * (\<bar>a\<bar> div \<bar>b\<bar>)"

definition c_rem :: "int \<Rightarrow> int \<Rightarrow> int" where
  "c_rem a b = sgn a * (\<bar>a\<bar> mod \<bar>b\<bar>)"

text \<open>\<^verbatim>\<open>ceildiv(a, divisor)\<close> at \<^verbatim>\<open>T = int64_t\<close>:
  \<^verbatim>\<open>(T)(a / divisor) + (T)((a % divisor) != 0)\<close>.\<close>

definition ceildiv :: "int \<Rightarrow> int \<Rightarrow> int" where
  "ceildiv a divisor = c_div a divisor + (if c_rem a divisor \<noteq> 0 then 1 else 0)"

text \<open>\<^verbatim>\<open>1ull << pos\<close>: undefined unless \<open>0 \<le> pos < 64\<close>.\<close>

definition shl_one :: "int \<Rightarrow> u64 outcome" where
  "shl_one pos =
     (if 0 \<le> pos \<and> pos < 64 then done_with (push_bit (nat pos) 1) else fails ShiftOutOfRange)"

text \<open>The range test \<^verbatim>\<open>key >= 0 && key <= 255\<close> of the three containers.\<close>

definition is_extended_ascii :: "int \<Rightarrow> bool" where
  "is_extended_ascii key \<longleftrightarrow> 0 \<le> key \<and> key \<le> 255"

subsection \<open>BitvectorHashmap\<close>

record MapElem =
  elem_key :: u64
  elem_value :: u64

text \<open>\<^verbatim>\<open>std::array<MapElem, 128> m_map\<close>: a function on the slot numbers; every access
  checks the index against 128.\<close>

type_synonym BitvectorHashmap = "nat \<Rightarrow> MapElem"

definition BitvectorHashmap_empty :: BitvectorHashmap where
  "BitvectorHashmap_empty = (\<lambda>_. \<lparr>elem_key = 0, elem_value = 0\<rparr>)"

text \<open>The test \<^verbatim>\<open>!m_map[i].value || m_map[i].key == key\<close> that ends a probe.\<close>

definition slot_accepts :: "BitvectorHashmap \<Rightarrow> nat \<Rightarrow> u64 \<Rightarrow> bool" where
  "slot_accepts m i k \<longleftrightarrow> elem_value (m i) = 0 \<or> elem_key (m i) = k"

text \<open>The \<^verbatim>\<open>while (true)\<close> loop of \<^verbatim>\<open>lookup\<close>, entered with the current \<^verbatim>\<open>i\<close> and
  \<^verbatim>\<open>perturb\<close>. One round is \<^verbatim>\<open>i = ((i * 5) + perturb + 1) % 128\<close> in \<^verbatim>\<open>int64_t\<close>
  (both additions must stay in range), the access \<^verbatim>\<open>m_map[i]\<close> (the index must be
  in \<open>0..127\<close>), the test, and \<^verbatim>\<open>perturb >>= 5\<close> (arithmetic shift: \<open>div 32\<close>,
  rounding down).\<close>

partial_function (option) lookup_loop ::
  "BitvectorHashmap \<Rightarrow> u64 \<Rightarrow> int \<Rightarrow> int \<Rightarrow> (fault + nat) option" where
  "lookup_loop m k i perturb =
     (if in_int64 (i * 5 + perturb) \<and> in_int64 (i * 5 + perturb + 1) then
        (if 0 \<le> c_rem (i * 5 + perturb + 1) 128 \<and> c_rem (i * 5 + perturb + 1) 128 < 128 then
           (if slot_accepts m (nat (c_rem (i * 5 + perturb + 1) 128)) k
            then Some (Inr (nat (c_rem (i * 5 + perturb + 1) 128)))
            else lookup_loop m k (c_rem (i * 5 + perturb + 1) 128) (perturb div 32))
         else Some (Inl OutOfBounds))
      else Some (Inl SignedOverflow))"

declare lookup_loop.simps [code]

definition lookup :: "BitvectorHashmap \<Rightarrow> u64 \<Rightarrow> nat outcome" where
  "lookup m k =
     (if slot_accepts m (unat k mod 128) k then Some (Inr (unat k mod 128))
      else lookup_loop m k (int (unat k mod 128)) (sint k))"

definition insert_mask :: "BitvectorHashmap \<Rightarrow> int \<Rightarrow> u64 \<Rightarrow> BitvectorHashmap outcome" where
  "insert_mask m key msk =
     and_then (lookup m (word_of_int key))
       (\<lambda>i. done_with (m(i := \<lparr>elem_key = word_of_int key,
                                elem_value = elem_value (m i) OR msk\<rparr>)))"

definition BitvectorHashmap_insert ::
  "BitvectorHashmap \<Rightarrow> int \<Rightarrow> int \<Rightarrow> BitvectorHashmap outcome" where
  "BitvectorHashmap_insert m key pos = and_then (shl_one pos) (insert_mask m key)"

definition BitvectorHashmap_get :: "BitvectorHashmap \<Rightarrow> int \<Rightarrow> u64 outcome" where
  "BitvectorHashmap_get m key =
     and_then (lookup m (word_of_int key)) (\<lambda>i. done_with (elem_value (m i)))"

subsection \<open>PatternMatchVector\<close>

record PatternMatchVector =
  pmv_map :: BitvectorHashmap
  pmv_extendedAscii :: "nat \<Rightarrow> u64"

definition PatternMatchVector_empty :: PatternMatchVector where
  "PatternMatchVector_empty =
     \<lparr>pmv_map = BitvectorHashmap_empty, pmv_extendedAscii = (\<lambda>_. 0)\<rparr>"

text \<open>The \<^verbatim>\<open>if\<close>/\<^verbatim>\<open>else\<close> shared by both \<^verbatim>\<open>insert\<close> overloads: or the mask into the
  direct table or into the hashmap.\<close>

definition pmv_or_mask :: "PatternMatchVector \<Rightarrow> int \<Rightarrow> u64 \<Rightarrow> PatternMatchVector outcome" where
  "pmv_or_mask s key msk =
     (if is_extended_ascii key
      then done_with (s\<lparr>pmv_extendedAscii :=
             (pmv_extendedAscii s)(nat key := pmv_extendedAscii s (nat key) OR msk)\<rparr>)
      else and_then (insert_mask (pmv_map s) key msk) (\<lambda>m'. done_with (s\<lparr>pmv_map := m'\<rparr>)))"

text \<open>\<^verbatim>\<open>insert(first, last)\<close>: the loop over the sequence, with the running
  \<^verbatim>\<open>mask\<close> (\<^verbatim>\<open>mask <<= 1\<close> after every element).\<close>

fun pmv_insert_loop :: "PatternMatchVector \<Rightarrow> u64 \<Rightarrow> int list \<Rightarrow> PatternMatchVector outcome" where
  "pmv_insert_loop s msk [] = done_with s"
| "pmv_insert_loop s msk (key # rest) =
     and_then (pmv_or_mask s key msk) (\<lambda>s'. pmv_insert_loop s' (push_bit 1 msk) rest)"

definition PatternMatchVector_insert_seq ::
  "PatternMatchVector \<Rightarrow> int list \<Rightarrow> PatternMatchVector outcome" where
  "PatternMatchVector_insert_seq s p = pmv_insert_loop s 1 p"

text \<open>\<^verbatim>\<open>insert(key, pos)\<close>.\<close>

definition PatternMatchVector_insert ::
  "PatternMatchVector \<Rightarrow> int \<Rightarrow> int \<Rightarrow> PatternMatchVector outcome" where
  "PatternMatchVector_insert s key pos = and_then (shl_one pos) (pmv_or_mask s key)"

definition PatternMatchVector_get :: "PatternMatchVector \<Rightarrow> int \<Rightarrow> u64 outcome" where
  "PatternMatchVector_get s key =
     (if is_extended_ascii key then done_with (pmv_extendedAscii s (nat key))
      else BitvectorHashmap_get (pmv_map s) key)"

subsection \<open>BlockPatternMatchVector\<close>

record BlockPatternMatchVector =
  bpmv_map :: "BitvectorHashmap list"
  bpmv_extendedAscii :: "u64 list"
  m_block_count :: int

definition BlockPatternMatchVector_empty :: BlockPatternMatchVector where
  "BlockPatternMatchVector_empty = \<lparr>bpmv_map = [], bpmv_extendedAscii = [], m_block_count = 0\<rparr>"

text \<open>\<^verbatim>\<open>std::vector::resize(n)\<close>: keeps the first \<open>n\<close> elements and appends
  value-initialised ones.\<close>

definition resize :: "'a list \<Rightarrow> int \<Rightarrow> 'a \<Rightarrow> 'a list" where
  "resize xs n d = take (nat n) xs @ replicate (nat n - length xs) d"

text \<open>\<^verbatim>\<open>insert(block, key, pos)\<close>: the mask is computed first, then the assertion
  \<^verbatim>\<open>block < m_block_count\<close>, then the indexed update. The index
  \<^verbatim>\<open>key * m_block_count + block\<close> is converted to \<^verbatim>\<open>size_t\<close>: it is in range exactly when
  it is non-negative and below the vector's size.\<close>

definition BlockPatternMatchVector_insert ::
  "BlockPatternMatchVector \<Rightarrow> int \<Rightarrow> int \<Rightarrow> int \<Rightarrow> BlockPatternMatchVector outcome" where
  "BlockPatternMatchVector_insert s block key pos =
     and_then (shl_one pos) (\<lambda>msk.
       if \<not> block < m_block_count s then fails AssertionFailed
       else if is_extended_ascii key then
         (if 0 \<le> key * m_block_count s + block
             \<and> key * m_block_count s + block < int (length (bpmv_extendedAscii s))
          then done_with (s\<lparr>bpmv_extendedAscii :=
                 (bpmv_extendedAscii s)[nat (key * m_block_count s + block) :=
                    bpmv_extendedAscii s ! nat (key * m_block_count s + block) OR msk]\<rparr>)
          else fails OutOfBounds)
       else
         (if 0 \<le> block \<and> block < int (length (bpmv_map s))
          then and_then (insert_mask (bpmv_map s ! nat block) key msk)
                 (\<lambda>m'. done_with (s\<lparr>bpmv_map := (bpmv_map s)[nat block := m']\<rparr>))
          else fails OutOfBounds))"

text \<open>The loop \<^verbatim>\<open>for (i = 0; i < len; ++i)\<close> of the bulk insert, entered at index \<open>i\<close>
  with the elements from \<open>i\<close> on.\<close>

fun bpmv_insert_loop ::
  "BlockPatternMatchVector \<Rightarrow> int \<Rightarrow> int list \<Rightarrow> BlockPatternMatchVector outcome" where
  "bpmv_insert_loop s i [] = done_with s"
| "bpmv_insert_loop s i (key # rest) =
     and_then (BlockPatternMatchVector_insert s (c_div i 64) key (c_rem i 64))
       (\<lambda>s'. bpmv_insert_loop s' (i + 1) rest)"

definition BlockPatternMatchVector_insert_seq ::
  "BlockPatternMatchVector \<Rightarrow> int list \<Rightarrow> BlockPatternMatchVector outcome" where
  "BlockPatternMatchVector_insert_seq s p =
     bpmv_insert_loop
       (s\<lparr>bpmv_map := resize (bpmv_map s) (ceildiv (int (length p)) 64) BitvectorHashmap_empty,
          bpmv_extendedAscii :=
            resize (bpmv_extendedAscii s) (ceildiv (int (length p)) 64 * 256) 0,
          m_block_count := ceildiv (int (length p)) 64\<rparr>)
       0 p"

definition BlockPatternMatchVector_get ::
  "BlockPatternMatchVector \<Rightarrow> int \<Rightarrow> int \<Rightarrow> u64 outcome" where
  "BlockPatternMatchVector_get s block key =
     (if \<not> block < m_block_count s then fails AssertionFailed
      else if is_extended_ascii key then
        (if 0 \<le> key * m_block_count s + block
            \<and> key * m_block_count s + block < int (length (bpmv_extendedAscii s))
         then done_with (bpmv_extendedAscii s ! nat (key * m_block_count s + block))
         else fails OutOfBounds)
      else
        (if 0 \<le> block \<and> block < int (length (bpmv_map s))
         then BitvectorHashmap_get (bpmv_map s ! nat block) key
         else fails OutOfBounds))"

subsection \<open>Concrete tables used below\<close>

text \<open>The hashmap that holds the 32 keys \<open>259, 263, \<dots>, 383\<close>, each with mask 1 in its
  home slot \<open>key mod 128\<close> (the slots \<open>3, 7, \<dots>, 127\<close>); the other 96 slots are empty.\<close>

definition probe_trap :: BitvectorHashmap where
  "probe_trap =
     (\<lambda>i. if i < 128 \<and> i mod 4 = 3 then \<lparr>elem_key = 256 + of_nat i, elem_value = 1\<rparr>
          else \<lparr>elem_key = 0, elem_value = 0\<rparr>)"

subsection \<open>The probe sequence once \<^verbatim>\<open>perturb\<close> is 0\<close>

text \<open>When \<^verbatim>\<open>perturb\<close> has been shifted down to 0, one round of the loop maps slot \<open>i\<close> to
  \<open>(5 * i + 1) mod 128\<close>. \<open>slot_orbit n i\<close> lists the first \<open>n\<close> slots visited from \<open>i\<close>.\<close>

definition next_slot :: "nat \<Rightarrow> nat" where
  "next_slot i = (5 * i + 1) mod 128"

fun slot_orbit :: "nat \<Rightarrow> nat \<Rightarrow> nat list" where
  "slot_orbit 0 i = []"
| "slot_orbit (Suc n) i = i # slot_orbit n (next_slot i)"

text \<open>Keys for which the signed arithmetic of \<^verbatim>\<open>lookup\<close> is exact: \<open>0 \<le> key \<le> 2\<^sup>6\<^sup>3 - 637\<close>
  (then \<open>i * 5 + perturb + 1 \<le> 127 * 5 + key + 1 < 2\<^sup>6\<^sup>3\<close>).\<close>

definition probe_safe :: "int \<Rightarrow> bool" where
  "probe_safe key \<longleftrightarrow> 0 \<le> key \<and> key \<le> 9223372036854775171"

subsection \<open>Invariants of a hashmap built by inserts\<close>

text \<open>The slots in use (non-zero value), the keys they hold, and the invariant that every
  stored key is found again by \<^verbatim>\<open>lookup\<close> in the slot that holds it.\<close>

definition used_slots :: "BitvectorHashmap \<Rightarrow> nat set" where
  "used_slots m = {x. x < 128 \<and> elem_value (m x) \<noteq> 0}"

definition stored_keys :: "BitvectorHashmap \<Rightarrow> u64 set" where
  "stored_keys m = (\<lambda>x. elem_key (m x)) ` used_slots m"

definition findable :: "BitvectorHashmap \<Rightarrow> bool" where
  "findable m \<longleftrightarrow> (\<forall>x\<in>used_slots m. lookup m (elem_key (m x)) = Some (Inr x))"

subsection \<open>Vectors built by a sequence of single inserts\<close>

text \<open>\<open>pmv_insert_all s ops\<close> runs \<^verbatim>\<open>insert(key, pos)\<close> for the pairs of \<open>ops\<close> in order.
  \<open>is_char_code\<close> is the range of the integer character types up to 64 bits (signed or
  unsigned); \<open>wide_codes ops\<close> lists the distinct keys of \<open>ops\<close> outside \<open>[0, 255]\<close>.
  \<open>pmv_holds K s\<close>: the hashmap of \<open>s\<close> is \<open>findable\<close> and stores only wide keys of \<open>K\<close>,
  and a non-zero entry of the direct table belongs to a key of \<open>K\<close>.\<close>

fun pmv_insert_all :: "PatternMatchVector \<Rightarrow> (int \<times> int) list \<Rightarrow> PatternMatchVector outcome" where
  "pmv_insert_all s [] = done_with s"
| "pmv_insert_all s ((key, pos) # ops) =
     and_then (PatternMatchVector_insert s key pos) (\<lambda>s'. pmv_insert_all s' ops)"

definition is_char_code :: "int \<Rightarrow> bool" where
  "is_char_code key \<longleftrightarrow> - (2 ^ 63) \<le> key \<and> key < 2 ^ 64"

definition wide_codes :: "(int \<times> int) list \<Rightarrow> int list" where
  "wide_codes ops = remdups (filter (\<lambda>k. \<not> is_extended_ascii k) (map fst ops))"

definition pmv_holds :: "int set \<Rightarrow> PatternMatchVector \<Rightarrow> bool" where
  "pmv_holds K s \<longleftrightarrow>
     findable (pmv_map s)
     \<and> stored_keys (pmv_map s) \<subseteq> word_of_int ` {k \<in> K. \<not> is_extended_ascii k}
     \<and> (\<forall>n. pmv_extendedAscii s n \<noteq> 0 \<longrightarrow> int n \<in> K)"

text \<open>\<open>packed_vector n\<close> is the vector after inserting the wide keys \<open>256, \<dots>, 256 + n - 1\<close>
  at position 0 (\<open>packed_ops n\<close>): key \<open>256 + i\<close> sits in its home slot \<open>i\<close>. For \<open>n = 128\<close>
  the table is full. \<open>small_vector\<close>, \<open>small_table_1\<close> and \<open>small_table_2\<close> are
  vectors with one or two wide keys.\<close>

definition packed_table :: "nat \<Rightarrow> BitvectorHashmap" where
  "packed_table n =
     (\<lambda>i. if i < n then \<lparr>elem_key = 256 + of_nat i, elem_value = 1\<rparr>
          else \<lparr>elem_key = 0, elem_value = 0\<rparr>)"

definition packed_vector :: "nat \<Rightarrow> PatternMatchVector" where
  "packed_vector n = \<lparr>pmv_map = packed_table n, pmv_extendedAscii = (\<lambda>_. 0)\<rparr>"

definition packed_ops :: "nat \<Rightarrow> (int \<times> int) list" where
  "packed_ops n = map (\<lambda>i. (256 + int i, 0)) [0..<n]"

definition small_vector :: PatternMatchVector where
  "small_vector =
     \<lparr>pmv_map = BitvectorHashmap_empty(0 := \<lparr>elem_key = 256, elem_value = 1\<rparr>),
      pmv_extendedAscii = (\<lambda>_. 0)(97 := 2)\<rparr>"

definition small_table_1 :: PatternMatchVector where
  "small_table_1 =
     \<lparr>pmv_map = BitvectorHashmap_empty(0 := \<lparr>elem_key = 256, elem_value = 1\<rparr>),
      pmv_extendedAscii = (\<lambda>_. 0)\<rparr>"

definition small_table_2 :: PatternMatchVector where
  "small_table_2 =
     \<lparr>pmv_map = BitvectorHashmap_empty(0 := \<lparr>elem_key = 256, elem_value = 1\<rparr>,
                                        1 := \<lparr>elem_key = 384, elem_value = 2\<rparr>),
      pmv_extendedAscii = (\<lambda>_. 0)\<rparr>"

subsection \<open>More vectors and notions used below\<close>

text \<open>\<open>trap_ops n\<close> inserts the first \<open>n\<close> of the keys \<open>259, 263, \<dots>\<close> at position 0;
  \<open>trap_table n\<close> is the hashmap this gives, and \<open>trap_table 32\<close> is \<open>probe_trap\<close>.\<close>

definition trap_table :: "nat \<Rightarrow> BitvectorHashmap" where
  "trap_table n =
     (\<lambda>i. if i < 4 * n \<and> i mod 4 = 3 then \<lparr>elem_key = 256 + of_nat i, elem_value = 1\<rparr>
          else \<lparr>elem_key = 0, elem_value = 0\<rparr>)"

definition trap_ops :: "nat \<Rightarrow> (int \<times> int) list" where
  "trap_ops n = map (\<lambda>t. (259 + 4 * int t, 0)) [0..<n]"

definition trap_vector :: PatternMatchVector where
  "trap_vector = \<lparr>pmv_map = probe_trap, pmv_extendedAscii = (\<lambda>_. 0)\<rparr>"

text \<open>\<open>get_has_bit s key b\<close>: \<^verbatim>\<open>get(key)\<close> returns a mask with bit \<open>b\<close> set.
  \<open>positions p\<close> pairs every element of \<open>p\<close> with its index.\<close>

definition get_has_bit :: "PatternMatchVector \<Rightarrow> int \<Rightarrow> nat \<Rightarrow> bool" where
  "get_has_bit s key b \<longleftrightarrow> (\<exists>v. PatternMatchVector_get s key = Some (Inr v) \<and> bit v b)"

definition positions :: "int list \<Rightarrow> (int \<times> int) list" where
  "positions p = zip p (map int [0..<length p])"

subsection \<open>Notions for the blocked variant\<close>




section \<open>Properties\<close>

subsection \<open>Outcomes and single probe steps\<close>

lemma and_then_done [simp]: "and_then (done_with x) f = f x"
  by (simp add: done_with_def)

lemma and_then_fails [simp]: "and_then (fails e) f = fails e"
  by (simp add: fails_def)

lemma and_then_eq_Inr:
  "and_then r f = Some (Inr y) \<longleftrightarrow> (\<exists>x. r = Some (Inr x) \<and> f x = Some (Inr y))"
  by (cases "(r, f)" rule: and_then.cases) auto

lemma lookup_loop_overflow:
  "\<not> in_int64 (i * 5 + perturb + 1) \<Longrightarrow> lookup_loop m k i perturb = Some (Inl SignedOverflow)"
  by (subst lookup_loop.simps) simp

lemma lookup_loop_oob:
  "in_int64 (i * 5 + perturb) \<Longrightarrow> in_int64 (i * 5 + perturb + 1)
   \<Longrightarrow> c_rem (i * 5 + perturb + 1) 128 < 0
   \<Longrightarrow> lookup_loop m k i perturb = Some (Inl OutOfBounds)"
  by (subst lookup_loop.simps) simp

lemma lookup_loop_stop:
  "in_int64 (i * 5 + perturb) \<Longrightarrow> in_int64 (i * 5 + perturb + 1)
   \<Longrightarrow> 0 \<le> c_rem (i * 5 + perturb + 1) 128 \<Longrightarrow> c_rem (i * 5 + perturb + 1) 128 < 128
   \<Longrightarrow> slot_accepts m (nat (c_rem (i * 5 + perturb + 1) 128)) k
   \<Longrightarrow> lookup_loop m k i perturb = Some (Inr (nat (c_rem (i * 5 + perturb + 1) 128)))"
  by (subst lookup_loop.simps) simp

lemma lookup_loop_next:
  "in_int64 (i * 5 + perturb) \<Longrightarrow> in_int64 (i * 5 + perturb + 1)
   \<Longrightarrow> 0 \<le> c_rem (i * 5 + perturb + 1) 128 \<Longrightarrow> c_rem (i * 5 + perturb + 1) 128 < 128
   \<Longrightarrow> \<not> slot_accepts m (nat (c_rem (i * 5 + perturb + 1) 128)) k
   \<Longrightarrow> lookup_loop m k i perturb
       = lookup_loop m k (c_rem (i * 5 + perturb + 1) 128) (perturb div 32)"
  by (subst lookup_loop.simps) simp

subsection \<open>What a returning probe guarantees\<close>

text \<open>Rule induction over the loop: a property of every returning call follows from
  one unfolding of the body.\<close>

lemmas lookup_loop_induct = lookup_loop.raw_induct [rotated 1, consumes 1, case_names step]

text \<open>A probe that returns a slot returns one below 128 that accepts the key.\<close>

lemma lookup_loop_accepts_aux:
  "lookup_loop m k i p = Some y \<Longrightarrow> y = Inr j \<Longrightarrow> j < 128 \<and> slot_accepts m j k"
proof (induction rule: lookup_loop_induct)
  case (step loop m k i p y)
  then show ?case
    by (auto split: if_splits)
qed

lemma lookup_loop_accepts:
  "lookup_loop m k i p = Some (Inr j) \<Longrightarrow> j < 128 \<and> slot_accepts m j k"
  by (rule lookup_loop_accepts_aux) simp_all

text \<open>The probe only reads which slots accept the key: in a table where every slot the
  probe passed still rejects the key and the slot it returned still accepts it, the
  probe returns the same slot.\<close>

lemma lookup_loop_stable_aux:
  "lookup_loop m k i p = Some y \<Longrightarrow> y = Inr j
   \<Longrightarrow> (\<And>x. x < 128 \<Longrightarrow> \<not> slot_accepts m x k \<Longrightarrow> \<not> slot_accepts m' x k)
   \<Longrightarrow> slot_accepts m' j k
   \<Longrightarrow> lookup_loop m' k i p = Some (Inr j)"
proof (induction rule: lookup_loop_induct)
  case (step loop m k i p y)
  show ?case
  proof (cases "slot_accepts m (nat (c_rem (i * 5 + p + 1) 128)) k")
    case True
    with step show ?thesis
      by (subst lookup_loop.simps) (auto split: if_splits)
  next
    case False
    with step show ?thesis
      by (subst lookup_loop.simps) (auto split: if_splits)
  qed
qed


lemma lookup_accepts:
  "lookup m k = Some (Inr j) \<Longrightarrow> j < 128 \<and> slot_accepts m j k"
  by (auto simp: lookup_def split: if_splits dest: lookup_loop_accepts)

lemma lookup_stable:
  assumes "lookup m k = Some (Inr j)"
    and "\<And>x. x < 128 \<Longrightarrow> \<not> slot_accepts m x k \<Longrightarrow> \<not> slot_accepts m' x k"
    and "slot_accepts m' j k"
  shows "lookup m' k = Some (Inr j)"
proof (cases "slot_accepts m (unat k mod 128) k")
  case True
  with assms show ?thesis by (simp add: lookup_def)
next
  case False
  with assms(1) have loop: "lookup_loop m k (int (unat k mod 128)) (sint k) = Some (Inr j)"
    by (simp add: lookup_def)
  have "\<not> slot_accepts m' (unat k mod 128) k"
    using False assms(2) by simp
  moreover have "lookup_loop m' k (int (unat k mod 128)) (sint k) = Some (Inr j)"
    using loop assms(2,3) by (rule lookup_loop_stable_aux [OF _ refl])
  ultimately show ?thesis by (simp add: lookup_def)
qed

lemma lookup_after_store:
  assumes "lookup m c = Some (Inr i)"
  shows "lookup (m(i := \<lparr>elem_key = c, elem_value = v\<rparr>)) c = Some (Inr i)"
proof (rule lookup_stable [OF assms])
  fix x assume "x < 128" "\<not> slot_accepts m x c"
  with lookup_accepts [OF assms] have "x \<noteq> i" by auto
  with \<open>\<not> slot_accepts m x c\<close> show "\<not> slot_accepts (m(i := \<lparr>elem_key = c, elem_value = v\<rparr>)) x c"
    by (simp add: slot_accepts_def)
next
  show "slot_accepts (m(i := \<lparr>elem_key = c, elem_value = v\<rparr>)) i c"
    by (simp add: slot_accepts_def)
qed

subsection \<open>Inserting the same pair twice\<close>

lemma insert_mask_twice:
  assumes "insert_mask m key msk = Some (Inr m1)"
  shows "insert_mask m1 key msk = Some (Inr m1)"
proof -
  from assms obtain i where i: "lookup m (word_of_int key) = Some (Inr i)"
    and m1: "m1 = m(i := \<lparr>elem_key = word_of_int key, elem_value = elem_value (m i) OR msk\<rparr>)"
    by (auto simp: insert_mask_def and_then_eq_Inr done_with_def)
  have "lookup m1 (word_of_int key) = Some (Inr i)"
    unfolding m1 by (rule lookup_after_store [OF i])
  then show ?thesis
    by (simp add: insert_mask_def done_with_def m1 or.assoc)
qed

lemma pmv_or_mask_twice:
  assumes "pmv_or_mask s key msk = Some (Inr s1)"
  shows "pmv_or_mask s1 key msk = Some (Inr s1)"
proof (cases "is_extended_ascii key")
  case True
  with assms show ?thesis
    by (auto simp: pmv_or_mask_def done_with_def or.assoc)
next
  case False
  with assms obtain m1 where "insert_mask (pmv_map s) key msk = Some (Inr m1)"
    and "s1 = s\<lparr>pmv_map := m1\<rparr>"
    by (auto simp: pmv_or_mask_def and_then_eq_Inr done_with_def)
  with False insert_mask_twice [of "pmv_map s" key msk m1] show ?thesis
    by (simp add: pmv_or_mask_def done_with_def)
qed

lemma and_then_idem:
  assumes "\<And>x. r = Some (Inr x) \<Longrightarrow> f x = Some (Inr x)"
  shows "and_then (and_then r f) g = and_then r g"
proof (cases r)
  case None
  then show ?thesis by simp
next
  case (Some a)
  with assms show ?thesis by (cases a) auto
qed

text \<open>
  Claim C8 (idempotent OR). For every state, key and position \<open>0 \<le> pos < 64\<close>: when
  \<^verbatim>\<open>insert(key, pos)\<close> returns a state, a second \<^verbatim>\<open>insert(key, pos)\<close> returns that
  same state; and for every query key \<open>q\<close>, \<^verbatim>\<open>get(q)\<close> after two inserts of the pair
  is \<^verbatim>\<open>get(q)\<close> after one (as outcomes, so also where the first insert does not
  return a state).
\<close>

theorem idempotent_or:
  assumes "0 \<le> pos" and "pos < 64"
  shows "(\<forall>s1. PatternMatchVector_insert s key pos = Some (Inr s1)
            \<longrightarrow> PatternMatchVector_insert s1 key pos = Some (Inr s1))
       \<and> and_then (and_then (PatternMatchVector_insert s key pos)
                     (\<lambda>s1. PatternMatchVector_insert s1 key pos))
            (\<lambda>s2. PatternMatchVector_get s2 q)
         = and_then (PatternMatchVector_insert s key pos) (\<lambda>s1. PatternMatchVector_get s1 q)"
proof -
  have twice: "PatternMatchVector_insert s1 key pos = Some (Inr s1)"
    if "PatternMatchVector_insert s key pos = Some (Inr s1)" for s1
    using that assms
    by (auto simp: PatternMatchVector_insert_def shl_one_def intro: pmv_or_mask_twice)
  then show ?thesis
    by (auto intro: and_then_idem)
qed

text \<open>Unfolding rules for evaluating the model on concrete inputs.\<close>

lemmas eval_defs =
  PatternMatchVector_insert_seq_def PatternMatchVector_insert_def PatternMatchVector_get_def
  PatternMatchVector_empty_def pmv_or_mask_def is_extended_ascii_def
  BitvectorHashmap_insert_def BitvectorHashmap_get_def BitvectorHashmap_empty_def
  insert_mask_def shl_one_def done_with_def fails_def lookup_def slot_accepts_def
  in_int64_def c_rem_def c_div_def
  lookup_loop_overflow lookup_loop_oob lookup_loop_stop lookup_loop_next

theorem idempotent_or_witness:
  "(0::int) \<le> 5 \<and> (5::int) < 64
   \<and> PatternMatchVector_insert PatternMatchVector_empty 128512 5 \<noteq> None
   \<and> and_then (and_then (PatternMatchVector_insert PatternMatchVector_empty 128512 5)
                 (\<lambda>s1. PatternMatchVector_insert s1 128512 5))
        (\<lambda>s2. PatternMatchVector_get s2 128512) = Some (Inr 32)"
  using idempotent_or [of 5 PatternMatchVector_empty 128512 128512]
  by (simp add: eval_defs)

subsection \<open>Keys at and above \<open>2\<^sup>6\<^sup>3 - 636\<close>\<close>

text \<open>
  \<^verbatim>\<open>lookup\<close> takes the key as \<^verbatim>\<open>uint64_t\<close> but copies it into \<^verbatim>\<open>int64_t perturb\<close> and
  computes the next slot in \<^verbatim>\<open>int64_t\<close>. For a key of \<open>2\<^sup>6\<^sup>3\<close> or more
  \<^verbatim>\<open>perturb\<close> is negative, the truncating \<^verbatim>\<open>%\<close> gives a negative slot, and \<^verbatim>\<open>m_map[i]\<close> is
  read outside the array; it also stays at \<open>-1\<close> under \<^verbatim>\<open>>>=\<close> instead of reaching 0, so
  the probe no longer visits every slot. (For keys from \<open>2\<^sup>6\<^sup>3 - 636\<close> to \<open>2\<^sup>6\<^sup>3 - 1\<close> the
  sum can overflow.) None of this happens while the key's home slot accepts it: it needs
  a collision. \<^verbatim>\<open>uint64_t\<close> is one of the character types the binding instantiates
  (\<^verbatim>\<open>LIST_OF_CASES\<close> in \<^verbatim>\<open>cpp_common.hpp\<close>).
\<close>

text \<open>
  Claim C1 (round trip) at the \<^verbatim>\<open>uint64_t\<close> pattern \<open>[256, 2\<^sup>6\<^sup>3]\<close>, position 1. Both keys
  have home slot 0. The bulk insert stores 256 there; for \<open>2\<^sup>6\<^sup>3\<close> the probe computes
  \<^verbatim>\<open>(0 * 5 + INT64_MIN + 1) % 128 = -127\<close> and indexes \<^verbatim>\<open>m_map[-127]\<close>. No mask with bit 1
  is returned.
\<close>

theorem round_trip_fault:
  "and_then (PatternMatchVector_insert_seq PatternMatchVector_empty [256, 9223372036854775808])
     (\<lambda>s. PatternMatchVector_get s 9223372036854775808) = Some (Inl OutOfBounds)"
  by (simp add: eval_defs)

text \<open>
  Claim C3 (collision correctness) at \<open>key1 = 256\<close>, \<open>key2 = 2\<^sup>6\<^sup>3\<close>
  (\<open>key2 = key1 + 128 * (2\<^sup>5\<^sup>6 - 2)\<close>), positions 0 and 1: the second insert leaves the
  array at the first probe.
\<close>

theorem collision_fault:
  "and_then (BitvectorHashmap_insert BitvectorHashmap_empty 256 0)
     (\<lambda>m. BitvectorHashmap_insert m 9223372036854775808 1) = Some (Inl OutOfBounds)"
  by (simp add: eval_defs)

text \<open>
  Claim C6 (routing), last part, at the claim's own key \<open>0x1F600 = 128512\<close> (home slot 0)
  inserted at position 0 into an empty vector: reading the never-inserted wide key
  \<open>2\<^sup>6\<^sup>3\<close> does not return 0, it leaves the array.
\<close>

theorem wide_absent_fault:
  "and_then (PatternMatchVector_insert PatternMatchVector_empty 128512 0)
     (\<lambda>s. PatternMatchVector_get s 9223372036854775808) = Some (Inl OutOfBounds)"
  by (simp add: eval_defs)

subsection \<open>Block indices below zero\<close>

text \<open>
  Claim C7 (fail fast on a block outside \<open>[0, block_count)\<close>). \<^verbatim>\<open>assert(block <
  m_block_count)\<close> bounds the block from above only. After the bulk insert of the
  one-character pattern \<open>[97]\<close> (\<open>block_count = 1\<close>), \<^verbatim>\<open>insert(-1, 1, 0)\<close> passes the
  assertion and ors bit 0 into \<^verbatim>\<open>m_extendedAscii[1 * 1 + (-1)]\<close>, the entry of key 0 in
  block 0: \<^verbatim>\<open>get(0, 0)\<close> then returns 1 for a key that was never inserted.
\<close>

theorem negative_block_not_rejected:
  "and_then (BlockPatternMatchVector_insert_seq BlockPatternMatchVector_empty [97])
     (\<lambda>s. and_then (BlockPatternMatchVector_insert s (- 1) 1 0)
        (\<lambda>s'. BlockPatternMatchVector_get s' 0 0)) = Some (Inr 1)"
  by (simp add: BlockPatternMatchVector_insert_seq_def BlockPatternMatchVector_insert_def
      BlockPatternMatchVector_get_def BlockPatternMatchVector_empty_def resize_def ceildiv_def
      eval_defs)

subsection \<open>Truncating division on non-negative operands\<close>

lemma c_rem_nonneg: "0 \<le> a \<Longrightarrow> 0 < b \<Longrightarrow> c_rem a b = a mod b"
  by (cases "a = 0") (simp_all add: c_rem_def)


subsection \<open>A probe that never returns\<close>

lemma probe_trap_rejects:
  assumes "i < 128" "i mod 4 = 3"
  shows "\<not> slot_accepts probe_trap i (- 1)"
proof -
  have "unat (256 + of_nat i :: u64) = 256 + i"
    using assms by (simp add: unat_word_ariths unat_of_nat)
  moreover have "unat (- 1 :: u64) = 2 ^ 64 - 1"
    by (simp add: unsigned_minus_1_eq_mask mask_eq_exp_minus_1)
  ultimately have "unat (256 + of_nat i :: u64) \<noteq> unat (- 1 :: u64)"
    using assms by simp
  then have "(256 + of_nat i :: u64) \<noteq> - 1"
    by metis
  with assms show ?thesis
    by (simp add: slot_accepts_def probe_trap_def)
qed

lemma probe_trap_loop_aux:
  "lookup_loop m k i p = Some y \<Longrightarrow> m = probe_trap \<Longrightarrow> k = - 1 \<Longrightarrow> p = - 1
   \<Longrightarrow> 0 \<le> i \<Longrightarrow> i < 128 \<Longrightarrow> i mod 4 = 3 \<Longrightarrow> False"
proof (induction rule: lookup_loop_induct)
  case (step loop m k i p y)
  define j where "j = (i * 5) mod 128"
  have p: "p = - 1" and i: "0 \<le> i" "i < 128" "i mod 4 = 3" and m: "m = probe_trap" "k = - 1"
    using step.prems by blast+
  have "i * 5 + p + 1 = i * 5"
    by (simp add: p)
  moreover have "c_rem (i * 5) 128 = i * 5 mod 128"
    using i by (intro c_rem_nonneg) simp_all
  ultimately have r: "c_rem (i * 5 + p + 1) 128 = j"
    by (simp only: j_def)
  have "i * 5 mod 4 = (i mod 4) * 5 mod 4"
    by (simp only: mod_mult_left_eq)
  then have "i * 5 mod 4 = 3"
    by (simp add: i)
  moreover have "i * 5 mod 128 mod 4 = i * 5 mod 4"
    by (rule mod_mod_cancel) simp
  ultimately have b: "0 \<le> j" "j < 128" "j mod 4 = 3"
    by (simp_all add: j_def)
  have "nat j mod 4 = 3"
    using nat_mod_distrib [of j 4] b by simp
  moreover have "nat j < 128"
    using b by simp
  ultimately have "\<not> slot_accepts probe_trap (nat j) (- 1)"
    by (intro probe_trap_rejects)
  moreover have "in_int64 (i * 5 + p)" "in_int64 (i * 5 + p + 1)"
    using i by (simp_all add: in_int64_def p)
  ultimately have "loop m k j (p div 32) = Some y"
    using step.hyps b by (simp add: r m)
  moreover have "p div 32 = - 1"
    by (simp add: p)
  ultimately show ?case
    using step.IH [of m k j "- 1" y] b m by simp
qed

text \<open>In \<open>probe_trap\<close> 32 of the 128 slots are in use, and the probe for the key
  \<open>2\<^sup>6\<^sup>4 - 1\<close> (the word \<open>- 1\<close>) never returns.\<close>

lemma probe_trap_lookup:
  "card {i. i < 128 \<and> elem_value (probe_trap i) \<noteq> 0} < 128
   \<and> lookup probe_trap (- 1) = None"
proof
  have "{i. i < 128 \<and> elem_value (probe_trap i) \<noteq> 0} \<subseteq> {0..<128} - {0}"
    by (auto simp: probe_trap_def)
  then have "card {i. i < 128 \<and> elem_value (probe_trap i) \<noteq> 0} \<le> card ({0..<128::nat} - {0})"
    by (intro card_mono) auto
  then show "card {i. i < 128 \<and> elem_value (probe_trap i) \<noteq> 0} < 128"
    by simp
next
  have "lookup_loop probe_trap (- 1) 127 (- 1) \<noteq> Some y" for y
    using probe_trap_loop_aux [of probe_trap "- 1" 127 "- 1" y] by auto
  then have "lookup_loop probe_trap (- 1) 127 (- 1) = None"
    by (cases "lookup_loop probe_trap (- 1) 127 (- 1)") auto
  moreover have "\<not> slot_accepts probe_trap 127 (- 1)"
    by (rule probe_trap_rejects) simp_all
  moreover have "unat (- 1 :: u64) mod 128 = 127"
    by (simp add: unsigned_minus_1_eq_mask mask_eq_exp_minus_1)
  ultimately show "lookup probe_trap (- 1) = None"
    by (simp add: lookup_def)
qed

subsection \<open>Termination of the probe\<close>

text \<open>The map \<open>i \<mapsto> (5 * i + 1) mod 128\<close> runs through all 128 slots in one cycle
  (checked by computing the orbit of 0).\<close>

lemma length_slot_orbit [simp]: "length (slot_orbit n i) = n"
  by (induction n arbitrary: i) simp_all

lemma slot_orbit_nth: "t < n \<Longrightarrow> slot_orbit n i ! t = (next_slot ^^ t) i"
proof (induction n arbitrary: i t)
  case 0
  then show ?case by simp
next
  case (Suc n)
  then show ?case
    by (cases t) (simp_all add: funpow_swap1)
qed

lemma orbit_covers: "sort (slot_orbit 128 0) = [0..<128]"
  by code_simp

lemma orbit_closes: "slot_orbit 129 0 ! 128 = 0"
  by code_simp

lemma word_of_safe:
  assumes "probe_safe key"
  shows "unat (word_of_int key :: u64) = nat key" and "sint (word_of_int key :: u64) = key"
proof -
  from assms have k: "0 \<le> key" "key < 2 ^ 64" "key < 2 ^ 63"
    by (simp_all add: probe_safe_def)
  have "uint (word_of_int key :: u64) = key"
    using k by (simp add: uint_word_of_int)
  then show "unat (word_of_int key :: u64) = nat key"
    by (simp add: unat_eq_nat_uint)
  show "sint (word_of_int key :: u64) = key"
    using k by (simp add: signed_of_int signed_take_bit_int_eq_self)
qed

lemma reached_from_0:
  assumes "j < 128"
  shows "\<exists>t<128. (next_slot ^^ t) 0 = j"
proof -
  from assms have "j \<in> set (sort (slot_orbit 128 0))"
    by (simp only: orbit_covers) simp
  then have "j \<in> set (slot_orbit 128 0)"
    by simp
  then obtain t where "t < 128" "slot_orbit 128 0 ! t = j"
    by (auto simp: in_set_conv_nth)
  then show ?thesis
    by (auto simp: slot_orbit_nth)
qed

lemma cycle_closes: "(next_slot ^^ 128) 0 = 0"
  using orbit_closes by (simp add: slot_orbit_nth)

lemma reached_from_any:
  assumes "i < 128" "j < 128"
  shows "\<exists>t. (next_slot ^^ Suc t) i = j"
proof -
  from reached_from_0 [OF assms(1)] obtain a where a: "a < 128" "(next_slot ^^ a) 0 = i"
    by blast
  from reached_from_0 [OF assms(2)] obtain b where b: "b < 128" "(next_slot ^^ b) 0 = j"
    by blast
  have "(next_slot ^^ Suc (b + 127 - a)) i = (next_slot ^^ (Suc (b + 127 - a) + a)) 0"
    unfolding funpow_add using a by simp
  also have "Suc (b + 127 - a) + a = b + 128"
    using a by simp
  also have "(next_slot ^^ (b + 128)) 0 = j"
    unfolding funpow_add using b cycle_closes by simp
  finally show ?thesis ..
qed

lemma round_nonneg:
  assumes "i < 128" "0 \<le> p" "p \<le> 9223372036854775171"
  shows "in_int64 (int i * 5 + p)" "in_int64 (int i * 5 + p + 1)"
    "0 \<le> c_rem (int i * 5 + p + 1) 128" "c_rem (int i * 5 + p + 1) 128 < 128"
    "c_rem (int i * 5 + p + 1) 128 = (int i * 5 + p + 1) mod 128"
  using assms by (simp_all add: in_int64_def c_rem_nonneg)

lemma loop_zero_perturb:
  assumes "i < 128"
  shows "lookup_loop m k (int i) 0 =
     (if slot_accepts m (next_slot i) k then Some (Inr (next_slot i))
      else lookup_loop m k (int (next_slot i)) 0)"
proof -
  have "(int i * 5 + 1) mod 128 = int (next_slot i)"
    by (simp add: next_slot_def zmod_int ac_simps)
  then have "c_rem (int i * 5 + 0 + 1) 128 = int (next_slot i)"
    by (simp add: c_rem_nonneg)
  moreover have "next_slot i < 128"
    by (simp add: next_slot_def)
  moreover have "in_int64 (int i * 5 + 0)" "in_int64 (int i * 5 + 0 + 1)"
    using assms by (simp_all add: in_int64_def)
  ultimately show ?thesis
    by (subst lookup_loop.simps) simp
qed

lemma loop_returns_zero_perturb:
  "slot_accepts m ((next_slot ^^ Suc t) i) k \<Longrightarrow> i < 128
   \<Longrightarrow> \<exists>j. lookup_loop m k (int i) 0 = Some (Inr j)"
proof (induction t arbitrary: i)
  case 0
  then show ?case
    by (simp add: loop_zero_perturb)
next
  case (Suc t)
  have "next_slot i < 128"
    by (simp add: next_slot_def)
  moreover have "slot_accepts m ((next_slot ^^ Suc t) (next_slot i)) k"
    using Suc.prems(1) by (simp add: funpow_swap1)
  ultimately have "\<exists>j. lookup_loop m k (int (next_slot i)) 0 = Some (Inr j)"
    by (intro Suc.IH)
  with Suc.prems(2) show ?case
    by (simp add: loop_zero_perturb)
qed

lemma loop_returns:
  "0 \<le> p \<Longrightarrow> p \<le> 9223372036854775171 \<Longrightarrow> i < 128 \<Longrightarrow> x < 128 \<Longrightarrow> slot_accepts m x k
   \<Longrightarrow> \<exists>j. lookup_loop m k (int i) p = Some (Inr j)"
proof (induction "nat p" arbitrary: p i rule: less_induct)
  case less
  show ?case
  proof (cases "p = 0")
    case True
    from reached_from_any [OF less.prems(3,4)] obtain t where "(next_slot ^^ Suc t) i = x"
      by blast
    with less.prems True show ?thesis
      using loop_returns_zero_perturb [of m t i k] by simp
  next
    case False
    define i' where "i' = nat (c_rem (int i * 5 + p + 1) 128)"
    note r = round_nonneg [OF less.prems(3,1,2)]
    have i': "i' < 128" "int i' = c_rem (int i * 5 + p + 1) 128"
      using r by (simp_all add: i'_def)
    show ?thesis
    proof (cases "slot_accepts m i' k")
      case True
      with r show ?thesis
        by (auto intro!: exI lookup_loop_stop simp: i'_def)
    next
      case False
      with r have "lookup_loop m k (int i) p = lookup_loop m k (int i') (p div 32)"
        by (simp add: lookup_loop_next i'_def)
      moreover have "nat (p div 32) < nat p" "0 \<le> p div 32" "p div 32 \<le> 9223372036854775171"
        using less.prems(1,2) \<open>p \<noteq> 0\<close> by simp_all
      ultimately show ?thesis
        using less.hyps [of "p div 32" i'] i' less.prems(4,5) by simp
    qed
  qed
qed

text \<open>Termination of \<^verbatim>\<open>lookup\<close> for a key up to \<open>2\<^sup>6\<^sup>3 - 637\<close>, when some slot accepts it.\<close>

lemma lookup_returns:
  assumes "probe_safe key" and "x < 128" and "slot_accepts m x (word_of_int key)"
  shows "\<exists>j. lookup m (word_of_int key) = Some (Inr j)"
proof (cases "slot_accepts m (unat (word_of_int key :: u64) mod 128) (word_of_int key)")
  case True
  then show ?thesis by (simp add: lookup_def)
next
  case False
  have "\<exists>j. lookup_loop m (word_of_int key) (int (nat key mod 128)) key = Some (Inr j)"
    using assms by (intro loop_returns [of key _ x]) (simp_all add: probe_safe_def)
  with False show ?thesis
    by (simp add: lookup_def word_of_safe [OF assms(1)])
qed

subsection \<open>The invariants are kept by every insert\<close>

lemma insert_mask_Inr:
  assumes "insert_mask m key msk = Some (Inr m')"
  obtains i where "i < 128" "lookup m (word_of_int key) = Some (Inr i)"
    "slot_accepts m i (word_of_int key)"
    "m' = m(i := \<lparr>elem_key = word_of_int key, elem_value = elem_value (m i) OR msk\<rparr>)"
proof -
  from assms obtain i where i: "lookup m (word_of_int key) = Some (Inr i)"
    and m': "m' = m(i := \<lparr>elem_key = word_of_int key, elem_value = elem_value (m i) OR msk\<rparr>)"
    by (auto simp: insert_mask_def and_then_eq_Inr done_with_def)
  with lookup_accepts [OF i] that show thesis
    by blast
qed

lemma findable_insert_mask:
  assumes "findable m" and "insert_mask m key msk = Some (Inr m')"
  shows "findable m'"
proof -
  define c :: u64 where "c = word_of_int key"
  from assms(2) obtain i where i: "i < 128" "lookup m c = Some (Inr i)" "slot_accepts m i c"
    and m': "m' = m(i := \<lparr>elem_key = c, elem_value = elem_value (m i) OR msk\<rparr>)"
    unfolding c_def by (rule insert_mask_Inr)
  have "lookup m' (elem_key (m' x)) = Some (Inr x)" if x: "x \<in> used_slots m'" for x
  proof (cases "x = i")
    case True
    then show ?thesis
      unfolding m' using lookup_after_store [OF i(2)] by simp
  next
    case False
    with x have xm: "x \<in> used_slots m" and same: "m' x = m x"
      by (simp_all add: used_slots_def m')
    define kx where "kx = elem_key (m x)"
    from assms(1) xm have look: "lookup m kx = Some (Inr x)"
      by (simp add: findable_def kx_def)
    have "lookup m' kx = Some (Inr x)"
    proof (rule lookup_stable [OF look])
      fix y assume y: "y < 128" "\<not> slot_accepts m y kx"
      show "\<not> slot_accepts m' y kx"
      proof (cases "y = i")
        case True
        with y i(3) have "elem_value (m i) \<noteq> 0" "c \<noteq> kx"
          by (auto simp: slot_accepts_def)
        then show ?thesis
          by (simp add: True m' slot_accepts_def or_eq_0_iff)
      next
        case False
        with y show ?thesis
          by (simp add: m' slot_accepts_def)
      qed
    next
      show "slot_accepts m' x kx"
        by (simp add: same slot_accepts_def kx_def)
    qed
    then show ?thesis
      by (simp add: same kx_def)
  qed
  then show ?thesis
    by (simp add: findable_def)
qed

lemma stored_keys_insert_mask:
  assumes "insert_mask m key msk = Some (Inr m')"
  shows "stored_keys m' \<subseteq> insert (word_of_int key) (stored_keys m)"
proof -
  from assms obtain i where
    m': "m' = m(i := \<lparr>elem_key = word_of_int key, elem_value = elem_value (m i) OR msk\<rparr>)"
    by (rule insert_mask_Inr)
  show ?thesis
    by (auto simp: stored_keys_def used_slots_def m')
qed

lemma card_used_slots:
  assumes "findable m"
  shows "card (used_slots m) = card (stored_keys m)"
proof -
  have "inj_on (\<lambda>x. elem_key (m x)) (used_slots m)"
  proof (rule inj_onI)
    fix x y assume "x \<in> used_slots m" "y \<in> used_slots m" "elem_key (m x) = elem_key (m y)"
    with assms have "Some (Inr x) = (Some (Inr y) :: nat outcome)"
      by (metis findable_def)
    then show "x = y" by simp
  qed
  then show ?thesis
    by (simp add: stored_keys_def card_image)
qed

lemma free_slot:
  assumes "findable m" and "card (stored_keys m) < 128"
  obtains x where "x < 128" "elem_value (m x) = 0"
proof -
  have "card (used_slots m) < 128"
    using assms(2) card_used_slots [OF assms(1)] by simp
  then have "used_slots m \<noteq> {..<128}"
    by (metis card_lessThan less_irrefl)
  moreover have "used_slots m \<subseteq> {..<128}"
    by (auto simp: used_slots_def)
  ultimately obtain x where "x < 128" "x \<notin> used_slots m"
    by blast
  with that show thesis
    by (simp add: used_slots_def)
qed

lemma absent_key_reads_zero:
  assumes "c \<notin> stored_keys m" and "lookup m c = Some (Inr j)"
  shows "elem_value (m j) = 0"
proof (rule ccontr)
  assume "elem_value (m j) \<noteq> 0"
  with lookup_accepts [OF assms(2)] have "j \<in> used_slots m" "elem_key (m j) = c"
    by (simp_all add: used_slots_def slot_accepts_def)
  with assms(1) show False
    by (auto simp: stored_keys_def)
qed

lemma safe_code_inj:
  assumes "probe_safe key" and "is_char_code k" and "(word_of_int k :: u64) = word_of_int key"
  shows "k = key"
proof -
  from assms(3) have "k mod 2 ^ 64 = key mod 2 ^ 64"
    by (simp add: word_of_int_eq_iff take_bit_eq_mod)
  moreover have "key mod 2 ^ 64 = key"
    using assms(1) by (simp add: probe_safe_def)
  moreover have "k mod 2 ^ 64 = (if 0 \<le> k then k else k + 2 ^ 64)"
  proof (cases "0 \<le> k")
    case True
    with assms(2) show ?thesis by (simp add: is_char_code_def)
  next
    case False
    have "(k + 2 ^ 64) mod 2 ^ 64 = k + 2 ^ 64"
      using False assms(2) by (intro mod_pos_pos_trivial) (simp_all add: is_char_code_def)
    with False show ?thesis by simp
  qed
  ultimately show ?thesis
    using assms(1,2) by (simp add: probe_safe_def is_char_code_def split: if_splits)
qed

lemma pmv_empty_holds: "pmv_holds {} PatternMatchVector_empty"
  by (simp add: pmv_holds_def PatternMatchVector_empty_def findable_def stored_keys_def
      used_slots_def BitvectorHashmap_empty_def)

lemma pmv_or_mask_holds:
  assumes "pmv_holds K s" and "pmv_or_mask s key msk = Some (Inr s')"
  shows "pmv_holds (insert key K) s'"
proof (cases "is_extended_ascii key")
  case True
  with assms(2) have s': "s' = s\<lparr>pmv_extendedAscii :=
      (pmv_extendedAscii s)(nat key := pmv_extendedAscii s (nat key) OR msk)\<rparr>"
    by (simp add: pmv_or_mask_def done_with_def)
  from True have "int (nat key) = key"
    by (simp add: is_extended_ascii_def)
  with assms(1) show ?thesis
    unfolding pmv_holds_def s' by auto
next
  case False
  with assms(2) obtain m' where m': "insert_mask (pmv_map s) key msk = Some (Inr m')"
    and s': "s' = s\<lparr>pmv_map := m'\<rparr>"
    by (auto simp: pmv_or_mask_def and_then_eq_Inr done_with_def)
  from assms(1) m' have "findable m'"
    by (auto simp: pmv_holds_def intro: findable_insert_mask)
  moreover from stored_keys_insert_mask [OF m'] assms(1) False
  have "stored_keys m' \<subseteq> word_of_int ` {k \<in> insert key K. \<not> is_extended_ascii k}"
    by (auto simp: pmv_holds_def)
  ultimately show ?thesis
    using assms(1) by (auto simp: pmv_holds_def s')
qed

lemma pmv_insert_holds:
  assumes "pmv_holds K s" and "PatternMatchVector_insert s key pos = Some (Inr s')"
  shows "pmv_holds (insert key K) s'"
proof -
  from assms(2) obtain msk where "pmv_or_mask s key msk = Some (Inr s')"
    unfolding PatternMatchVector_insert_def and_then_eq_Inr by blast
  with assms(1) show ?thesis
    by (rule pmv_or_mask_holds)
qed

lemma pmv_insert_all_holds:
  "pmv_insert_all s ops = Some (Inr s') \<Longrightarrow> pmv_holds K s \<Longrightarrow> pmv_holds (K \<union> fst ` set ops) s'"
proof (induction ops arbitrary: s K)
  case Nil
  then show ?case by (simp add: done_with_def)
next
  case (Cons op ops)
  obtain key pos where op: "op = (key, pos)"
    by (cases op)
  from Cons.prems(1) obtain s1 where s1: "PatternMatchVector_insert s key pos = Some (Inr s1)"
    and rest: "pmv_insert_all s1 ops = Some (Inr s')"
    by (auto simp: op and_then_eq_Inr)
  have "pmv_holds (insert key K \<union> fst ` set ops) s'"
    by (rule Cons.IH [OF rest pmv_insert_holds [OF Cons.prems(2) s1]])
  then show ?case
    by (simp add: op)
qed

lemma stored_keys_bound:
  assumes "pmv_holds (fst ` set ops) s"
  shows "card (stored_keys (pmv_map s)) \<le> length (wide_codes ops)"
proof -
  have w: "{k \<in> fst ` set ops. \<not> is_extended_ascii k} = set (wide_codes ops)"
    by (auto simp: wide_codes_def)
  from assms have "stored_keys (pmv_map s) \<subseteq> word_of_int ` set (wide_codes ops)"
    by (simp add: pmv_holds_def w)
  then have "card (stored_keys (pmv_map s)) \<le> card (word_of_int ` set (wide_codes ops) :: u64 set)"
    by (intro card_mono) simp_all
  also have "\<dots> \<le> card (set (wide_codes ops))"
    by (rule card_image_le) simp
  also have "\<dots> = length (wide_codes ops)"
    by (rule distinct_card) (simp add: wide_codes_def)
  finally show ?thesis .
qed


lemmas eval_all = pmv_insert_all.simps eval_defs

subsection \<open>Zero default\<close>

lemma get_absent:
  assumes "pmv_holds K s" and "list_all is_char_code ks" and "K = set ks"
    and "card (stored_keys (pmv_map s)) < 128"
    and "key \<notin> K" and "is_extended_ascii key \<or> probe_safe key"
  shows "PatternMatchVector_get s key = Some (Inr 0)"
proof (cases "is_extended_ascii key")
  case True
  then have "int (nat key) = key"
    by (simp add: is_extended_ascii_def)
  with assms(1,5) have "pmv_extendedAscii s (nat key) = 0"
    unfolding pmv_holds_def by metis
  with True show ?thesis
    by (simp add: PatternMatchVector_get_def done_with_def)
next
  case False
  with assms(6) have safe: "probe_safe key"
    by simp
  define m where "m = pmv_map s"
  define c :: u64 where "c = word_of_int key"
  have absent: "c \<notin> stored_keys m"
  proof
    assume "c \<in> stored_keys m"
    with assms(1) obtain k where "k \<in> K" "c = word_of_int k"
      unfolding pmv_holds_def m_def by blast
    moreover from this assms(2,3) have "is_char_code k"
      by (simp add: list_all_iff)
    ultimately have "k = key"
      using safe_code_inj [OF safe, of k] by (simp add: c_def)
    with \<open>k \<in> K\<close> assms(5) show False
      by simp
  qed
  from assms(1,4) obtain x where x: "x < 128" "elem_value (m x) = 0"
    unfolding pmv_holds_def m_def by (blast elim: free_slot)
  then have "slot_accepts m x c"
    by (simp add: slot_accepts_def)
  with lookup_returns [OF safe x(1)] obtain j where j: "lookup m c = Some (Inr j)"
    unfolding c_def by blast
  with absent have "elem_value (m j) = 0"
    by (rule absent_key_reads_zero)
  with j False show ?thesis
    by (simp add: PatternMatchVector_get_def BitvectorHashmap_get_def done_with_def m_def c_def)
qed

text \<open>
  Claim C2 (zero default), as the code has it. In a vector built from the empty one by
  single inserts of character codes, with at most 127 distinct keys outside \<open>[0, 255]\<close>
  (so that a slot of the 128 stays empty), \<^verbatim>\<open>get(key)\<close> returns 0 for every key never
  inserted that is in \<open>[0, 255]\<close> (direct table) or a wide key up to \<open>2\<^sup>6\<^sup>3 - 637\<close> (hashmap).
  Nothing is said here about wider keys.
\<close>

theorem zero_default:
  assumes "pmv_insert_all PatternMatchVector_empty ops = Some (Inr s)"
    and "list_all is_char_code (map fst ops)"
    and "length (wide_codes ops) \<le> 127"
    and "key \<notin> set (map fst ops)"
    and "is_extended_ascii key \<or> probe_safe key"
  shows "PatternMatchVector_get s key = Some (Inr 0)"
proof -
  have h: "pmv_holds (fst ` set ops) s"
    using pmv_insert_all_holds [OF assms(1) pmv_empty_holds] by simp
  from stored_keys_bound [OF h] assms(3) have "card (stored_keys (pmv_map s)) < 128"
    by simp
  with h assms(2,4,5) show ?thesis
    by (intro get_absent [of "fst ` set ops" s "map fst ops"]) simp_all
qed

theorem zero_default_witness:
  "pmv_insert_all PatternMatchVector_empty [(256, 0), (97, 1)] = Some (Inr small_vector)
   \<and> list_all is_char_code (map fst [(256, 0), (97, 1)])
   \<and> length (wide_codes [(256, 0), (97, 1)]) \<le> 127
   \<and> 384 \<notin> set (map fst [(256 :: int, 0 :: int), (97, 1)])
   \<and> probe_safe 384
   \<and> PatternMatchVector_get small_vector 384 = Some (Inr 0)"
proof -
  have b: "pmv_insert_all PatternMatchVector_empty [(256, 0), (97, 1)] = Some (Inr small_vector)"
    by (simp add: eval_all small_vector_def)
  have h: "list_all is_char_code (map fst [(256, 0), (97, 1)])"
    "length (wide_codes [(256, 0), (97, 1)]) \<le> 127"
    "384 \<notin> set (map fst [(256 :: int, 0 :: int), (97, 1)])" "probe_safe 384"
    by (simp_all add: is_char_code_def wide_codes_def is_extended_ascii_def probe_safe_def)
  from zero_default [OF b h(1,2,3)] h(4) have "PatternMatchVector_get small_vector 384 = Some (Inr 0)"
    by simp
  with b h show ?thesis
    by simp
qed


subsection \<open>A full table\<close>

lemma and_then_assoc:
  "and_then (and_then r f) g = and_then r (\<lambda>x. and_then (f x) g)"
proof (cases r)
  case None
  then show ?thesis by simp
next
  case (Some a)
  then show ?thesis by (cases a) simp_all
qed

lemma pmv_insert_all_append:
  "pmv_insert_all s (xs @ ys) = and_then (pmv_insert_all s xs) (\<lambda>s'. pmv_insert_all s' ys)"
proof (induction xs arbitrary: s)
  case Nil
  then show ?case by simp
next
  case (Cons op xs)
  obtain key pos where "op = (key, pos)" by (cases op)
  with Cons show ?case
    by (simp add: and_then_assoc)
qed

lemma packed_key:
  assumes "n < 128"
  shows "(word_of_int (256 + int n) :: u64) = 256 + of_nat n"
    and "unat (256 + of_nat n :: u64) = 256 + n"
  using assms by (simp_all add: unat_word_ariths unat_of_nat)

lemma packed_step:
  assumes "n < 128"
  shows "PatternMatchVector_insert (packed_vector n) (256 + int n) 0 = Some (Inr (packed_vector (Suc n)))"
proof -
  define c :: u64 where "c = 256 + of_nat n"
  have u: "unat c = 256 + n"
    using assms by (simp add: c_def packed_key)
  have "(n + 2 * 128) mod 128 = n mod 128"
    by (rule mod_mult_self1)
  then have "(256 + n) mod 128 = n"
    using assms by (simp add: add.commute)
  then have home: "unat c mod 128 = n"
    by (simp only: u)
  have "slot_accepts (packed_table n) n c"
    by (simp add: slot_accepts_def packed_table_def)
  then have "lookup (packed_table n) c = Some (Inr n)"
    by (simp add: lookup_def home)
  moreover have "(packed_table n)(n := \<lparr>elem_key = c, elem_value = elem_value (packed_table n n) OR 1\<rparr>)
      = packed_table (Suc n)"
    by (rule ext) (simp add: packed_table_def c_def less_Suc_eq)
  ultimately have "insert_mask (packed_table n) (256 + int n) 1 = Some (Inr (packed_table (Suc n)))"
    using assms by (simp add: insert_mask_def done_with_def packed_key c_def)
  then show ?thesis
    by (simp add: PatternMatchVector_insert_def shl_one_def pmv_or_mask_def is_extended_ascii_def
        packed_vector_def done_with_def)
qed

lemma packed_ops_Suc: "packed_ops (Suc n) = packed_ops n @ [(256 + int n, 0)]"
  by (simp add: packed_ops_def)

lemma packed_built:
  "n \<le> 128 \<Longrightarrow> pmv_insert_all PatternMatchVector_empty (packed_ops n) = Some (Inr (packed_vector n))"
proof (induction n)
  case 0
  show ?case
    by (simp add: packed_ops_def packed_vector_def packed_table_def PatternMatchVector_empty_def
        BitvectorHashmap_empty_def done_with_def)
next
  case (Suc n)
  with packed_ops_Suc [of n] show ?case
    by (simp add: pmv_insert_all_append packed_step done_with_def)
qed

lemma packed_full_rejects:
  assumes "i < 128" and "384 \<le> unat k"
  shows "\<not> slot_accepts (packed_table 128) i k"
proof -
  have "unat (256 + of_nat i :: u64) \<noteq> unat k"
    using assms by (simp add: packed_key)
  then have "(256 + of_nat i :: u64) \<noteq> k"
    by metis
  with assms(1) show ?thesis
    by (simp add: slot_accepts_def packed_table_def)
qed

lemma packed_full_loop:
  "lookup_loop m k i p = Some y \<Longrightarrow> m = packed_table 128 \<Longrightarrow> 384 \<le> unat k
   \<Longrightarrow> 0 \<le> i \<Longrightarrow> i < 128 \<Longrightarrow> 0 \<le> p \<Longrightarrow> p \<le> 9223372036854775171 \<Longrightarrow> False"
proof (induction rule: lookup_loop_induct)
  case (step loop m k i p y)
  define j where "j = c_rem (i * 5 + p + 1) 128"
  have "nat i < 128" "int (nat i) = i"
    using step.prems by simp_all
  with round_nonneg [of "nat i" p] step.prems
  have r: "in_int64 (i * 5 + p)" "in_int64 (i * 5 + p + 1)" "0 \<le> j" "j < 128"
    by (simp_all add: j_def)
  then have "\<not> slot_accepts (packed_table 128) (nat j) k"
    using step.prems by (intro packed_full_rejects) simp_all
  with r step.hyps step.prems have "loop m k j (p div 32) = Some y"
    by (simp add: j_def)
  moreover have "0 \<le> p div 32" "p div 32 \<le> 9223372036854775171"
    using step.prems by simp_all
  ultimately show ?case
    using step.IH [of m k j "p div 32" y] step.prems r by simp
qed

lemma packed_full_never_returns:
  assumes "probe_safe key" and "384 \<le> key"
  shows "PatternMatchVector_get (packed_vector 128) key = None"
proof -
  define k :: u64 where "k = word_of_int key"
  from word_of_safe [OF assms(1)] assms(2) have k: "unat k = nat key" "sint k = key" "384 \<le> unat k"
    by (simp_all add: k_def)
  have "lookup_loop (packed_table 128) k (int (unat k mod 128)) (sint k) \<noteq> Some y" for y
    using packed_full_loop [of "packed_table 128" k "int (unat k mod 128)" "sint k" y] assms k
    by (auto simp: probe_safe_def)
  then have "lookup_loop (packed_table 128) k (int (unat k mod 128)) (sint k) = None"
    by (cases "lookup_loop (packed_table 128) k (int (unat k mod 128)) (sint k)") auto
  moreover have "\<not> slot_accepts (packed_table 128) (unat k mod 128) k"
    using k by (intro packed_full_rejects) simp_all
  ultimately have "lookup (packed_table 128) k = None"
    by (simp add: lookup_def)
  with assms(2) show ?thesis
    by (simp add: PatternMatchVector_get_def BitvectorHashmap_get_def packed_vector_def
        is_extended_ascii_def k_def)
qed

lemma length_wide_codes_packed: "length (wide_codes (packed_ops n)) \<le> n"
proof -
  have "length (wide_codes (packed_ops n)) \<le> length (packed_ops n)"
    unfolding wide_codes_def
    by (metis length_remdups_leq length_filter_le length_map le_trans)
  then show ?thesis
    by (simp add: packed_ops_def)
qed

text \<open>
  Claim C2 as stated allows 128 distinct wide keys. With the 128 keys \<open>256, \<dots>, 383\<close>
  inserted every slot is in use, and \<^verbatim>\<open>get(384)\<close> for the never-inserted key 384 probes
  for ever instead of returning 0.
\<close>

theorem zero_default_full_table:
  "length (wide_codes (packed_ops 128)) \<le> 128
   \<and> 384 \<notin> set (map fst (packed_ops 128))
   \<and> and_then (pmv_insert_all PatternMatchVector_empty (packed_ops 128))
        (\<lambda>s. PatternMatchVector_get s 384) = None"
proof -
  have "384 \<notin> set (map fst (packed_ops 128))"
    by (auto simp: packed_ops_def)
  moreover have "PatternMatchVector_get (packed_vector 128) 384 = None"
    by (rule packed_full_never_returns) (simp_all add: probe_safe_def)
  ultimately show ?thesis
    using length_wide_codes_packed [of 128] by (simp add: packed_built)
qed


subsection \<open>Frame\<close>

lemma shl_one_nonzero:
  assumes "shl_one pos = Some (Inr msk)"
  shows "msk \<noteq> 0"
proof -
  from assms have "0 \<le> pos" "pos < 64" "msk = push_bit (nat pos) 1"
    by (auto simp: shl_one_def done_with_def fails_def split: if_splits)
  then show ?thesis
    by (simp add: push_bit_eq_mult)
qed

lemma hashmap_get_frame:
  assumes inv: "findable m" and ins: "insert_mask m key msk = Some (Inr m')" and msk: "msk \<noteq> 0"
    and safe: "probe_safe key'" and other: "(word_of_int key' :: u64) \<noteq> word_of_int key"
    and free: "x < 128" "elem_value (m' x) = 0"
  shows "BitvectorHashmap_get m' key' = BitvectorHashmap_get m key'
       \<and> (\<exists>v. BitvectorHashmap_get m key' = Some (Inr v))"
proof -
  define c :: u64 where "c = word_of_int key"
  define c' :: u64 where "c' = word_of_int key'"
  from ins obtain i where i: "i < 128" "lookup m c = Some (Inr i)" "slot_accepts m i c"
    and m': "m' = m(i := \<lparr>elem_key = c, elem_value = elem_value (m i) OR msk\<rparr>)"
    unfolding c_def by (rule insert_mask_Inr)
  have used_i: "elem_value (m' i) \<noteq> 0"
    using msk by (simp add: m' or_eq_0_iff)
  have rej_i: "\<not> slot_accepts m' i c'"
    using used_i other by (simp add: slot_accepts_def m' c_def c'_def)
  from free used_i have "x \<noteq> i"
    by auto
  with free have acc: "slot_accepts m x c'" "slot_accepts m' x c'"
    by (simp_all add: slot_accepts_def m')
  from lookup_returns [OF safe free(1)] acc obtain j j'
    where j: "lookup m c' = Some (Inr j)" and j': "lookup m' c' = Some (Inr j')"
    unfolding c'_def by blast
  have keep: "\<not> slot_accepts m' y c'" if "y < 128" "\<not> slot_accepts m y c'" for y
  proof (cases "y = i")
    case True
    with rej_i show ?thesis by simp
  next
    case False
    with that show ?thesis by (simp add: slot_accepts_def m')
  qed
  have "elem_value (m' j') = elem_value (m j)"
  proof (cases "j = i")
    case False
    with lookup_accepts [OF j] have "slot_accepts m' j c'"
      by (simp add: slot_accepts_def m')
    with j keep have "lookup m' c' = Some (Inr j)"
      by (rule lookup_stable)
    with j' False show ?thesis
      by (simp add: m')
  next
    case True
    with lookup_accepts [OF j] i(3) other have zero: "elem_value (m i) = 0"
      by (auto simp: slot_accepts_def c_def c'_def)
    from lookup_accepts [OF j'] rej_i have ne: "j' \<noteq> i" and a': "slot_accepts m' j' c'" and "j' < 128"
      by auto
    have "elem_value (m j') = 0"
    proof (rule ccontr)
      assume "elem_value (m j') \<noteq> 0"
      with a' ne \<open>j' < 128\<close> have "j' \<in> used_slots m" "elem_key (m j') = c'"
        by (simp_all add: used_slots_def slot_accepts_def m')
      with inv have "lookup m c' = Some (Inr j')"
        by (auto simp: findable_def)
      with j True ne show False
        by simp
    qed
    with ne zero True show ?thesis
      by (simp add: m')
  qed
  with j j' show ?thesis
    by (simp add: BitvectorHashmap_get_def done_with_def c'_def)
qed

text \<open>
  Claim C9 (frame), as the code has it. In a vector built from the empty one by single
  inserts of character codes, let \<^verbatim>\<open>insert(key, pos)\<close> return, with at most 127 distinct
  wide keys after it. Then for every \<open>key' \<noteq> key\<close> that is in \<open>[0, 255]\<close> or a wide key up to
  \<open>2\<^sup>6\<^sup>3 - 637\<close>, \<^verbatim>\<open>get(key')\<close> returned a mask before the insert and returns the same mask
  after it. Nothing is said here about wider keys.
\<close>

theorem frame_other_keys:
  assumes "pmv_insert_all PatternMatchVector_empty ops = Some (Inr s)"
    and "PatternMatchVector_insert s key pos = Some (Inr s')"
    and "list_all is_char_code (key # map fst ops)"
    and "length (wide_codes (ops @ [(key, pos)])) \<le> 127"
    and "key' \<noteq> key"
    and "is_extended_ascii key' \<or> probe_safe key'"
  shows "PatternMatchVector_get s' key' = PatternMatchVector_get s key'
       \<and> (\<exists>v. PatternMatchVector_get s key' = Some (Inr v))"
proof -
  from assms(2) obtain msk where msk: "shl_one pos = Some (Inr msk)"
    and upd: "pmv_or_mask s key msk = Some (Inr s')"
    by (auto simp: PatternMatchVector_insert_def and_then_eq_Inr)
  show ?thesis
  proof (cases "is_extended_ascii key")
    case True
    with upd have s': "s' = s\<lparr>pmv_extendedAscii :=
        (pmv_extendedAscii s)(nat key := pmv_extendedAscii s (nat key) OR msk)\<rparr>"
      by (simp add: pmv_or_mask_def done_with_def)
    show ?thesis
    proof (cases "is_extended_ascii key'")
      case ascii': True
      with True assms(5) have "nat key' \<noteq> nat key"
        by (auto simp: is_extended_ascii_def)
      with ascii' show ?thesis
        by (simp add: PatternMatchVector_get_def s' done_with_def)
    next
      case wide': False
      have h: "pmv_holds (fst ` set ops) s"
        using pmv_insert_all_holds [OF assms(1) pmv_empty_holds] by simp
      have "length (wide_codes ops) \<le> length (wide_codes (ops @ [(key, pos)]))"
        using True by (simp add: wide_codes_def)
      with stored_keys_bound [OF h] assms(4) have "card (stored_keys (pmv_map s)) < 128"
        by simp
      with h obtain x where x: "x < 128" "elem_value (pmv_map s x) = 0"
        unfolding pmv_holds_def by (blast elim: free_slot)
      from wide' assms(6) have "probe_safe key'"
        by simp
      from lookup_returns [OF this x(1), of "pmv_map s"] x(2)
      obtain j where "lookup (pmv_map s) (word_of_int key') = Some (Inr j)"
        by (auto simp: slot_accepts_def)
      with wide' show ?thesis
        by (simp add: PatternMatchVector_get_def s' BitvectorHashmap_get_def done_with_def)
    qed
  next
    case False
    with upd obtain m' where m': "insert_mask (pmv_map s) key msk = Some (Inr m')"
      and s': "s' = s\<lparr>pmv_map := m'\<rparr>"
      by (auto simp: pmv_or_mask_def and_then_eq_Inr done_with_def)
    show ?thesis
    proof (cases "is_extended_ascii key'")
      case True
      then show ?thesis
        by (simp add: PatternMatchVector_get_def s' done_with_def)
    next
      case wide': False
      with assms(6) have safe: "probe_safe key'"
        by simp
      have h: "pmv_holds (fst ` set ops) s"
        using pmv_insert_all_holds [OF assms(1) pmv_empty_holds] by simp
      have "pmv_insert_all PatternMatchVector_empty (ops @ [(key, pos)]) = Some (Inr s')"
        using assms(1,2) by (simp add: pmv_insert_all_append done_with_def)
      from pmv_insert_all_holds [OF this pmv_empty_holds]
      have h': "pmv_holds (fst ` set (ops @ [(key, pos)])) s'"
        by simp
      from stored_keys_bound [OF h'] assms(4) have "card (stored_keys (pmv_map s')) < 128"
        by simp
      with h' obtain x where x: "x < 128" "elem_value (pmv_map s' x) = 0"
        unfolding pmv_holds_def by (blast elim: free_slot)
      have other: "(word_of_int key' :: u64) \<noteq> word_of_int key"
        using safe_code_inj [OF safe, of key] assms(3,5) by auto
      from h have "findable (pmv_map s)"
        by (simp add: pmv_holds_def)
      from hashmap_get_frame [OF this m' shl_one_nonzero [OF msk] safe other] x wide'
      show ?thesis
        by (simp add: PatternMatchVector_get_def s')
    qed
  qed
qed


theorem frame_other_keys_witness:
  "pmv_insert_all PatternMatchVector_empty [(256, 0)] = Some (Inr small_table_1)
   \<and> PatternMatchVector_insert small_table_1 384 1 = Some (Inr small_table_2)
   \<and> list_all is_char_code (384 # map fst [(256, 0)])
   \<and> length (wide_codes ([(256, 0)] @ [(384, 1)])) \<le> 127
   \<and> (512 :: int) \<noteq> 384 \<and> probe_safe 512
   \<and> PatternMatchVector_get small_table_2 512 = Some (Inr 0)
   \<and> PatternMatchVector_get small_table_1 512 = Some (Inr 0)"
proof -
  have b: "pmv_insert_all PatternMatchVector_empty [(256, 0)] = Some (Inr small_table_1)"
    "PatternMatchVector_insert small_table_1 384 1 = Some (Inr small_table_2)"
    by (simp_all add: eval_all small_table_1_def small_table_2_def)
  have h: "list_all is_char_code (384 # map fst [(256, 0)])"
    "length (wide_codes ([(256, 0)] @ [(384, 1)])) \<le> 127" "(512 :: int) \<noteq> 384" "probe_safe 512"
    by (simp_all add: is_char_code_def wide_codes_def is_extended_ascii_def probe_safe_def)
  have g: "PatternMatchVector_get small_table_1 512 = Some (Inr 0)"
    by (simp add: eval_all small_table_1_def)
  from frame_other_keys [OF b h(1,2,3)] h(4)
  have "PatternMatchVector_get small_table_2 512 = PatternMatchVector_get small_table_1 512"
    by simp
  with b h g show ?thesis
    by simp
qed

text \<open>
  Claim C9 as stated allows 128 distinct wide keys after the insert. In the vector with
  the 127 keys \<open>256, \<dots>, 382\<close>, \<^verbatim>\<open>get(511)\<close> returns 0 (home slot 127 is empty);
  after \<^verbatim>\<open>insert(383, 0)\<close>, which takes slot 127, the table is full and \<^verbatim>\<open>get(511)\<close>
  no longer returns.
\<close>

theorem frame_full_table:
  "length (wide_codes (packed_ops 127 @ [(383, 0)])) \<le> 128 \<and> (511 :: int) \<noteq> 383
   \<and> and_then (pmv_insert_all PatternMatchVector_empty (packed_ops 127))
        (\<lambda>s. PatternMatchVector_get s 511) = Some (Inr 0)
   \<and> and_then (pmv_insert_all PatternMatchVector_empty (packed_ops 127))
        (\<lambda>s. and_then (PatternMatchVector_insert s 383 0)
           (\<lambda>s'. PatternMatchVector_get s' 511)) = None"
proof -
  have ops: "packed_ops 127 @ [(383, 0)] = packed_ops 128"
    using packed_ops_Suc [of 127] by simp
  have "(word_of_int 511 :: u64) = 511" "unat (511 :: u64) mod 128 = 127"
    by simp_all
  then have before: "PatternMatchVector_get (packed_vector 127) 511 = Some (Inr 0)"
    by (simp add: PatternMatchVector_get_def BitvectorHashmap_get_def is_extended_ascii_def
        packed_vector_def lookup_def slot_accepts_def packed_table_def done_with_def)
  have step: "PatternMatchVector_insert (packed_vector 127) 383 0 = Some (Inr (packed_vector 128))"
    using packed_step [of 127] by simp
  have after: "PatternMatchVector_get (packed_vector 128) 511 = None"
    by (rule packed_full_never_returns) (simp_all add: probe_safe_def)
  show ?thesis
    using length_wide_codes_packed [of 128]
    by (simp add: ops packed_built before step after)
qed

subsection \<open>Bulk inserts that meet the signed probe\<close>

lemma pmv_insert_loop_append:
  "pmv_insert_loop s msk (xs @ ys) =
     and_then (pmv_insert_loop s msk xs) (\<lambda>s'. pmv_insert_loop s' (push_bit (length xs) msk) ys)"
proof (induction xs arbitrary: s msk)
  case Nil
  then show ?case by simp
next
  case (Cons key xs)
  have "push_bit (length xs) (push_bit 1 msk) = push_bit (Suc (length xs)) msk"
    by (simp add: push_bit_eq_mult mult.assoc)
  with Cons show ?case
    by (simp add: and_then_assoc)
qed

lemma pmv_insert_loop_ascii:
  "list_all is_extended_ascii xs
   \<Longrightarrow> \<exists>s'. pmv_insert_loop s msk xs = Some (Inr s') \<and> pmv_map s' = pmv_map s"
proof (induction xs arbitrary: s msk)
  case Nil
  then show ?case by (simp add: done_with_def)
next
  case (Cons key xs)
  define s1 where "s1 = s\<lparr>pmv_extendedAscii :=
      (pmv_extendedAscii s)(nat key := pmv_extendedAscii s (nat key) OR msk)\<rparr>"
  from Cons.prems have key: "is_extended_ascii key" and rest: "list_all is_extended_ascii xs"
    by simp_all
  from Cons.IH [OF rest, of s1 "push_bit 1 msk"] obtain s'
    where "pmv_insert_loop s1 (push_bit 1 msk) xs = Some (Inr s')" "pmv_map s' = pmv_map s1"
    by blast
  moreover have "pmv_or_mask s key msk = Some (Inr s1)"
    using key by (simp add: pmv_or_mask_def done_with_def s1_def)
  moreover have "pmv_map s1 = pmv_map s"
    by (simp add: s1_def)
  ultimately show ?case
    by simp
qed

text \<open>
  The blocked variant goes through the same \<^verbatim>\<open>lookup\<close>: in the 130-element \<^verbatim>\<open>uint64_t\<close>
  pattern \<open>256, 2\<^sup>6\<^sup>3, 97, \<dots>, 97\<close> both wide keys have home slot 0 in the hashmap of
  block 0, and the insert of position 1 indexes \<^verbatim>\<open>m_map[-127]\<close> of that hashmap. This is
  the defect of \<^verbatim>\<open>lookup\<close> shown above, not a property of the block arithmetic, which is
  proved in \<open>block_boundary\<close> below.
\<close>

lemma block_insert_probe_fault:
  "BlockPatternMatchVector_insert_seq BlockPatternMatchVector_empty
     (256 # 9223372036854775808 # replicate 128 97) = Some (Inl OutOfBounds)"
  by (simp add: BlockPatternMatchVector_insert_seq_def BlockPatternMatchVector_insert_def
      BlockPatternMatchVector_empty_def resize_def ceildiv_def eval_defs)

text \<open>
  Claim C10 (over-length bulk insert) at the 65-element \<^verbatim>\<open>uint64_t\<close> pattern
  \<open>256, 97, \<dots>, 97, 2\<^sup>6\<^sup>3\<close>. At index 64 the running mask is 0, but the code still calls
  \<^verbatim>\<open>insert_mask(2\<^sup>6\<^sup>3, 0)\<close>, whose \<^verbatim>\<open>lookup\<close> collides with 256 in slot 0 and indexes
  \<^verbatim>\<open>m_map[-127]\<close>. Inserting only the first 64 elements returns a vector in which
  \<^verbatim>\<open>get(256)\<close> is 1.
\<close>

theorem over_length_fault:
  "and_then (PatternMatchVector_insert_seq PatternMatchVector_empty
       (256 # replicate 63 97 @ [9223372036854775808]))
     (\<lambda>s. PatternMatchVector_get s 256) = Some (Inl OutOfBounds)
   \<and> and_then (PatternMatchVector_insert_seq PatternMatchVector_empty
       (take 64 (256 # replicate 63 97 @ [9223372036854775808])))
     (\<lambda>s. PatternMatchVector_get s 256) = Some (Inr 1)"
proof -
  define s1 where "s1 = small_table_1"
  have first: "pmv_or_mask PatternMatchVector_empty 256 1 = Some (Inr s1)"
    by (simp add: eval_defs s1_def small_table_1_def)
  have "list_all is_extended_ascii (replicate 63 97)"
    by (simp add: list_all_iff is_extended_ascii_def)
  from pmv_insert_loop_ascii [OF this, of s1 "push_bit 1 1"]
  obtain s2 where s2: "pmv_insert_loop s1 (push_bit 1 1) (replicate 63 97) = Some (Inr s2)"
    and map2: "pmv_map s2 = pmv_map s1"
    by blast
  have "(2 :: u64) ^ 64 = 0"
    by (simp only: exp_eq_zero_iff) simp
  then have msk: "(18446744073709551616 :: u64) = 0"
    by simp
  have tail: "pmv_or_mask s2 9223372036854775808 0 = Some (Inl OutOfBounds)"
    by (simp add: pmv_or_mask_def map2 s1_def small_table_1_def eval_defs)
  have get2: "PatternMatchVector_get s2 256 = Some (Inr 1)"
    by (simp add: PatternMatchVector_get_def BitvectorHashmap_get_def map2 s1_def
        small_table_1_def eval_defs)
  have "pmv_insert_loop PatternMatchVector_empty 1 (256 # replicate 63 97 @ [9223372036854775808])
      = Some (Inl OutOfBounds)"
    using first s2 tail by (simp add: pmv_insert_loop_append msk done_with_def)
  moreover have "pmv_insert_loop PatternMatchVector_empty 1 (256 # replicate 63 97) = Some (Inr s2)"
    using first s2 by simp
  ultimately show ?thesis
    using get2 by (simp add: PatternMatchVector_insert_seq_def)
qed

subsection \<open>The trap table is built by 32 inserts\<close>

lemma trap_step:
  assumes "n < 32"
  shows "PatternMatchVector_insert \<lparr>pmv_map = trap_table n, pmv_extendedAscii = (\<lambda>_. 0)\<rparr>
      (259 + 4 * int n) 0
    = Some (Inr \<lparr>pmv_map = trap_table (Suc n), pmv_extendedAscii = (\<lambda>_. 0)\<rparr>)"
proof -
  define i where "i = 4 * n + 3"
  define c :: u64 where "c = 256 + of_nat i"
  have i: "i < 128" "i mod 4 = 3" "259 + 4 * int n = 256 + int i"
    using assms by (simp_all add: i_def)
  have u: "unat c = 256 + i" and w: "(word_of_int (256 + int i) :: u64) = c"
    using i(1) by (simp_all add: c_def packed_key)
  have "(i + 2 * 128) mod 128 = i mod 128"
    by (rule mod_mult_self1)
  then have "(256 + i) mod 128 = i"
    using i(1) by (simp add: add.commute)
  then have home: "unat c mod 128 = i"
    by (simp only: u)
  have "slot_accepts (trap_table n) i c"
    by (simp add: slot_accepts_def trap_table_def i_def)
  then have "lookup (trap_table n) c = Some (Inr i)"
    by (simp add: lookup_def home)
  moreover have "(trap_table n)(i := \<lparr>elem_key = c, elem_value = elem_value (trap_table n i) OR 1\<rparr>)
      = trap_table (Suc n)"
  proof (rule ext)
    fix x
    have "x < 4 * Suc n \<and> x mod 4 = 3 \<longleftrightarrow> (x < 4 * n \<and> x mod 4 = 3) \<or> x = i"
      unfolding i_def by presburger
    then show "((trap_table n)(i := \<lparr>elem_key = c, elem_value = elem_value (trap_table n i) OR 1\<rparr>)) x
        = trap_table (Suc n) x"
      by (auto simp: trap_table_def c_def i_def)
  qed
  ultimately have "insert_mask (trap_table n) (256 + int i) 1 = Some (Inr (trap_table (Suc n)))"
    by (simp add: insert_mask_def done_with_def c_def [symmetric])
  then show ?thesis
    by (simp add: PatternMatchVector_insert_def shl_one_def pmv_or_mask_def is_extended_ascii_def
        done_with_def i(3))
qed

lemma trap_built:
  "n \<le> 32 \<Longrightarrow> pmv_insert_all PatternMatchVector_empty (trap_ops n)
     = Some (Inr \<lparr>pmv_map = trap_table n, pmv_extendedAscii = (\<lambda>_. 0)\<rparr>)"
proof (induction n)
  case 0
  show ?case
    by (simp add: trap_ops_def trap_table_def PatternMatchVector_empty_def
        BitvectorHashmap_empty_def done_with_def)
next
  case (Suc n)
  have "trap_ops (Suc n) = trap_ops n @ [(259 + 4 * int n, 0)]"
    by (simp add: trap_ops_def)
  with Suc show ?case
    by (simp add: pmv_insert_all_append trap_step done_with_def)
qed

lemma trap_table_full: "trap_table 32 = probe_trap"
  by (simp add: trap_table_def probe_trap_def)

text \<open>
  Claim C5 (probe termination) at the vector \<open>trap_vector\<close>, built by inserting the 32
  wide keys \<open>259, 263, \<dots>, 383\<close> at position 0 (each lands in its home slot
  \<open>3, 7, \<dots>, 127\<close>; 96 slots stay empty), and the key \<open>2\<^sup>6\<^sup>4 - 1\<close>. Its home slot 127
  holds 383; \<^verbatim>\<open>perturb\<close> is \<open>(int64_t)key = -1\<close> and stays \<open>-1\<close> under \<^verbatim>\<open>>>= 5\<close>, so each
  round is \<open>i = (5 * i) % 128\<close>, which keeps \<open>i mod 4 = 3\<close>: \<^verbatim>\<open>lookup\<close> runs through used
  slots for ever, and so does \<^verbatim>\<open>get\<close>.
\<close>

theorem probe_never_returns:
  "pmv_insert_all PatternMatchVector_empty (trap_ops 32) = Some (Inr trap_vector)
   \<and> card (used_slots (pmv_map trap_vector)) < 128
   \<and> lookup (pmv_map trap_vector) 18446744073709551615 = None
   \<and> PatternMatchVector_get trap_vector 18446744073709551615 = None"
proof -
  have k: "(18446744073709551615 :: u64) = - 1" "(word_of_int 18446744073709551615 :: u64) = - 1"
    by simp_all
  have "used_slots probe_trap = {i. i < 128 \<and> elem_value (probe_trap i) \<noteq> 0}"
    by (simp add: used_slots_def)
  with probe_trap_lookup show ?thesis
    using trap_built [of 32]
    by (simp add: trap_table_full trap_vector_def k PatternMatchVector_get_def
        BitvectorHashmap_get_def is_extended_ascii_def)
qed

subsection \<open>What holds below the limit: round trip\<close>

text \<open>A bit that \<^verbatim>\<open>get\<close> returns for a key is still returned after any further insert,
  and an insert that returns sets the bits of its mask.\<close>

lemma insert_mask_keeps_bit:
  assumes look: "lookup m c = Some (Inr j)" and b: "bit (elem_value (m j)) b"
    and ins: "insert_mask m key msk = Some (Inr m')"
  shows "lookup m' c = Some (Inr j) \<and> bit (elem_value (m' j)) b"
proof -
  define c' :: u64 where "c' = word_of_int key"
  from ins obtain i where i: "i < 128" "lookup m c' = Some (Inr i)" "slot_accepts m i c'"
    and m': "m' = m(i := \<lparr>elem_key = c', elem_value = elem_value (m i) OR msk\<rparr>)"
    unfolding c'_def by (rule insert_mask_Inr)
  from b have nz: "elem_value (m j) \<noteq> 0"
    by auto
  with lookup_accepts [OF look] have kj: "elem_key (m j) = c" "j < 128"
    by (simp_all add: slot_accepts_def)
  show ?thesis
  proof (cases "c' = c")
    case True
    with look i(2) have "i = j" by simp
    with True b lookup_after_store [OF look] show ?thesis
      by (simp add: m' bit_or_iff)
  next
    case False
    with nz kj i(3) have ne: "j \<noteq> i"
      by (auto simp: slot_accepts_def)
    have "lookup m' c = Some (Inr j)"
    proof (rule lookup_stable [OF look])
      fix y assume y: "y < 128" "\<not> slot_accepts m y c"
      show "\<not> slot_accepts m' y c"
      proof (cases "y = i")
        case True
        with y have "elem_value (m i) \<noteq> 0"
          by (auto simp: slot_accepts_def)
        with False True show ?thesis
          by (simp add: m' slot_accepts_def or_eq_0_iff)
      next
        case False
        with y show ?thesis by (simp add: m' slot_accepts_def)
      qed
    next
      show "slot_accepts m' j c"
        using ne kj by (simp add: m' slot_accepts_def)
    qed
    with ne b show ?thesis
      by (simp add: m')
  qed
qed

lemma pmv_or_mask_keeps_bit:
  assumes "get_has_bit s key b" and "pmv_or_mask s key' msk = Some (Inr s')"
  shows "get_has_bit s' key b"
proof (cases "is_extended_ascii key'")
  case True
  with assms(2) have s': "s' = s\<lparr>pmv_extendedAscii :=
      (pmv_extendedAscii s)(nat key' := pmv_extendedAscii s (nat key') OR msk)\<rparr>"
    by (simp add: pmv_or_mask_def done_with_def)
  from assms(1) show ?thesis
    by (auto simp: get_has_bit_def PatternMatchVector_get_def s' done_with_def bit_or_iff)
next
  case False
  with assms(2) obtain m' where m': "insert_mask (pmv_map s) key' msk = Some (Inr m')"
    and s': "s' = s\<lparr>pmv_map := m'\<rparr>"
    by (auto simp: pmv_or_mask_def and_then_eq_Inr done_with_def)
  show ?thesis
  proof (cases "is_extended_ascii key")
    case True
    with assms(1) show ?thesis
      by (simp add: get_has_bit_def PatternMatchVector_get_def s')
  next
    case wide: False
    with assms(1) obtain j where "lookup (pmv_map s) (word_of_int key) = Some (Inr j)"
      "bit (elem_value (pmv_map s j)) b"
      by (auto simp: get_has_bit_def PatternMatchVector_get_def BitvectorHashmap_get_def
          and_then_eq_Inr done_with_def)
    from insert_mask_keeps_bit [OF this m'] wide show ?thesis
      by (simp add: get_has_bit_def PatternMatchVector_get_def BitvectorHashmap_get_def
          s' done_with_def)
  qed
qed

lemma pmv_or_mask_sets_bit:
  assumes "pmv_or_mask s key msk = Some (Inr s')" and "bit msk b"
  shows "get_has_bit s' key b"
proof (cases "is_extended_ascii key")
  case True
  with assms show ?thesis
    by (auto simp: pmv_or_mask_def get_has_bit_def PatternMatchVector_get_def done_with_def
        bit_or_iff)
next
  case False
  with assms(1) obtain m' where m': "insert_mask (pmv_map s) key msk = Some (Inr m')"
    and s': "s' = s\<lparr>pmv_map := m'\<rparr>"
    by (auto simp: pmv_or_mask_def and_then_eq_Inr done_with_def)
  from m' obtain i where i: "lookup (pmv_map s) (word_of_int key) = Some (Inr i)"
    and m'': "m' = (pmv_map s)(i := \<lparr>elem_key = word_of_int key,
        elem_value = elem_value (pmv_map s i) OR msk\<rparr>)"
    by (rule insert_mask_Inr)
  from lookup_after_store [OF i] have "lookup m' (word_of_int key) = Some (Inr i)"
    by (simp add: m'')
  with False assms(2) show ?thesis
    by (simp add: get_has_bit_def PatternMatchVector_get_def BitvectorHashmap_get_def s'
        done_with_def m'' bit_or_iff)
qed

lemma pmv_insert_loop_keeps_bit:
  "pmv_insert_loop s msk p = Some (Inr s') \<Longrightarrow> get_has_bit s key b \<Longrightarrow> get_has_bit s' key b"
proof (induction p arbitrary: s msk)
  case Nil
  then show ?case by (simp add: done_with_def)
next
  case (Cons k p)
  from Cons.prems(1) obtain s1 where s1: "pmv_or_mask s k msk = Some (Inr s1)"
    and rest: "pmv_insert_loop s1 (push_bit 1 msk) p = Some (Inr s')"
    by (auto simp: and_then_eq_Inr)
  from pmv_or_mask_keeps_bit [OF Cons.prems(2) s1] Cons.IH [OF rest] show ?case
    by blast
qed

lemma pmv_insert_loop_sets_bit:
  "pmv_insert_loop s msk p = Some (Inr s') \<Longrightarrow> i < length p \<Longrightarrow> bit (push_bit i msk) b
   \<Longrightarrow> get_has_bit s' (p ! i) b"
proof (induction p arbitrary: s msk i)
  case Nil
  then show ?case by simp
next
  case (Cons k p)
  from Cons.prems(1) obtain s1 where s1: "pmv_or_mask s k msk = Some (Inr s1)"
    and rest: "pmv_insert_loop s1 (push_bit 1 msk) p = Some (Inr s')"
    by (auto simp: and_then_eq_Inr)
  show ?case
  proof (cases i)
    case 0
    with Cons.prems(3) pmv_or_mask_sets_bit [OF s1] have "get_has_bit s1 k b"
      by simp
    with rest 0 show ?thesis
      by (auto intro: pmv_insert_loop_keeps_bit)
  next
    case (Suc i')
    have "push_bit i' (push_bit 1 msk) = push_bit (Suc i') msk"
      by (simp add: push_bit_eq_mult mult.assoc)
    with Cons.prems(2,3) Suc Cons.IH [OF rest, of i'] show ?thesis
      by simp
  qed
qed

text \<open>Round trip of the bulk insert, whenever it returns.\<close>

lemma round_trip_when_returning:
  assumes "PatternMatchVector_insert_seq s p = Some (Inr s')" and "i < length p" and "i < 64"
  shows "\<exists>v. PatternMatchVector_get s' (p ! i) = Some (Inr v) \<and> bit v i"
proof -
  have "bit (push_bit i (1 :: u64)) i"
    using assms(3) by (simp add: bit_simps)
  with assms(1,2) have "get_has_bit s' (p ! i) i"
    unfolding PatternMatchVector_insert_seq_def by (rule pmv_insert_loop_sets_bit)
  then show ?thesis
    by (simp add: get_has_bit_def)
qed

subsection \<open>What holds below the limit: the bulk insert returns\<close>

lemma finite_used_slots [simp]: "finite (used_slots m)"
  by (rule finite_subset [of _ "{..<128}"]) (auto simp: used_slots_def)

lemma insert_mask_used_slots:
  assumes "insert_mask m key msk = Some (Inr m')"
  shows "card (used_slots m') \<le> Suc (card (used_slots m))"
    and "msk = 0 \<Longrightarrow> used_slots m' = used_slots m"
proof -
  from assms obtain i where
    m': "m' = m(i := \<lparr>elem_key = word_of_int key, elem_value = elem_value (m i) OR msk\<rparr>)"
    by (rule insert_mask_Inr)
  have "used_slots m' \<subseteq> insert i (used_slots m)"
    by (auto simp: used_slots_def m')
  then have "card (used_slots m') \<le> card (insert i (used_slots m))"
    by (intro card_mono) simp_all
  also have "\<dots> \<le> Suc (card (used_slots m))"
    by (simp add: card_insert_if)
  finally show "card (used_slots m') \<le> Suc (card (used_slots m))" .
  show "used_slots m' = used_slots m" if "msk = 0"
    using that by (auto simp: used_slots_def m')
qed

lemma pmv_or_mask_returns:
  assumes "is_extended_ascii key \<or> probe_safe key" and "card (used_slots (pmv_map s)) < 128"
  shows "\<exists>s'. pmv_or_mask s key msk = Some (Inr s')"
proof (cases "is_extended_ascii key")
  case True
  then show ?thesis by (simp add: pmv_or_mask_def done_with_def)
next
  case False
  with assms(1) have safe: "probe_safe key" by simp
  have "used_slots (pmv_map s) \<noteq> {..<128}"
    using assms(2) by (metis card_lessThan less_irrefl)
  moreover have "used_slots (pmv_map s) \<subseteq> {..<128}"
    by (auto simp: used_slots_def)
  ultimately obtain x where x: "x < 128" "elem_value (pmv_map s x) = 0"
    by (auto simp: used_slots_def)
  then have "slot_accepts (pmv_map s) x (word_of_int key)"
    by (simp add: slot_accepts_def)
  from lookup_returns [OF safe x(1) this] False show ?thesis
    by (auto simp: pmv_or_mask_def insert_mask_def done_with_def)
qed

lemma pmv_or_mask_used_slots:
  assumes "pmv_or_mask s key msk = Some (Inr s')"
  shows "card (used_slots (pmv_map s')) \<le> Suc (card (used_slots (pmv_map s)))"
    and "msk = 0 \<Longrightarrow> used_slots (pmv_map s') = used_slots (pmv_map s)"
proof -
  show "card (used_slots (pmv_map s')) \<le> Suc (card (used_slots (pmv_map s)))"
  proof (cases "is_extended_ascii key")
    case True
    with assms show ?thesis by (auto simp: pmv_or_mask_def done_with_def)
  next
    case False
    with assms show ?thesis
      by (auto simp: pmv_or_mask_def and_then_eq_Inr done_with_def
          dest: insert_mask_used_slots(1))
  qed
  show "used_slots (pmv_map s') = used_slots (pmv_map s)" if "msk = 0"
  proof (cases "is_extended_ascii key")
    case True
    with assms show ?thesis by (auto simp: pmv_or_mask_def done_with_def)
  next
    case False
    with assms that show ?thesis
      by (auto simp: pmv_or_mask_def and_then_eq_Inr done_with_def
          dest: insert_mask_used_slots(2))
  qed
qed

lemma pmv_insert_loop_returns:
  "list_all (\<lambda>k. is_extended_ascii k \<or> probe_safe k) p \<Longrightarrow> msk = push_bit n 1
   \<Longrightarrow> card (used_slots (pmv_map s)) + (64 - n) \<le> 127
   \<Longrightarrow> \<exists>s'. pmv_insert_loop s msk p = Some (Inr s')"
proof (induction p arbitrary: s n msk)
  case Nil
  then show ?case by (simp add: done_with_def)
next
  case (Cons k p)
  from Cons.prems have ok: "is_extended_ascii k \<or> probe_safe k"
    and rest: "list_all (\<lambda>k. is_extended_ascii k \<or> probe_safe k) p"
    by simp_all
  from Cons.prems(3) have "card (used_slots (pmv_map s)) < 128"
    by simp
  from pmv_or_mask_returns [OF ok this] obtain s1 where s1: "pmv_or_mask s k msk = Some (Inr s1)"
    by blast
  have "card (used_slots (pmv_map s1)) + (64 - Suc n) \<le> 127"
  proof (cases "n < 64")
    case True
    with pmv_or_mask_used_slots(1) [OF s1] Cons.prems(3) show ?thesis
      by simp
  next
    case False
    then have "(2 :: u64) ^ n = 0"
      by (simp only: exp_eq_zero_iff) simp
    then have "msk = 0"
      by (simp add: Cons.prems(2) push_bit_eq_mult)
    with pmv_or_mask_used_slots(2) [OF s1] Cons.prems(3) False show ?thesis
      by simp
  qed
  moreover have "push_bit 1 msk = push_bit (Suc n) 1"
    by (simp add: Cons.prems(2) push_bit_eq_mult)
  ultimately have "\<exists>s'. pmv_insert_loop s1 (push_bit 1 msk) p = Some (Inr s')"
    using rest by (intro Cons.IH [of "push_bit 1 msk" "Suc n" s1])
  with s1 show ?case
    by simp
qed

text \<open>The bulk insert into an empty vector returns for every pattern, of any length,
  whose keys are in \<open>[0, 255]\<close> or wide keys up to \<open>2\<^sup>6\<^sup>3 - 637\<close>.\<close>

lemma bulk_insert_returns:
  assumes "list_all (\<lambda>k. is_extended_ascii k \<or> probe_safe k) p"
  shows "\<exists>s'. PatternMatchVector_insert_seq PatternMatchVector_empty p = Some (Inr s')"
proof -
  have "used_slots (pmv_map PatternMatchVector_empty) = {}"
    by (simp add: used_slots_def PatternMatchVector_empty_def BitvectorHashmap_empty_def)
  then have "card (used_slots (pmv_map PatternMatchVector_empty)) + (64 - 0) \<le> 127"
    by simp
  with assms show ?thesis
    unfolding PatternMatchVector_insert_seq_def
    by (intro pmv_insert_loop_returns [of p 1 0]) simp_all
qed

text \<open>Up to 64 elements, the bulk insert is the sequence of single inserts of
  \<open>(p[i], i)\<close>.\<close>

lemma pmv_insert_loop_as_singles:
  "n + length p \<le> 64 \<Longrightarrow>
   pmv_insert_loop s (push_bit n 1) p = pmv_insert_all s (zip p (map int [n..<n + length p]))"
proof (induction p arbitrary: s n)
  case Nil
  then show ?case by simp
next
  case (Cons k p)
  define rest where "rest = zip p (map int [Suc n..<Suc n + length p])"
  have "[n..<n + length (k # p)] = n # [Suc n..<n + length (k # p)]"
    by (rule upt_conv_Cons) simp
  then have up: "zip (k # p) (map int [n..<n + length (k # p)]) = (k, int n) # rest"
    by (simp add: rest_def del: upt_Suc)
  have "shl_one (int n) = done_with (push_bit n 1)"
    using Cons.prems by (simp add: shl_one_def)
  then have single: "pmv_insert_all s ((k, int n) # rest)
      = and_then (pmv_or_mask s k (push_bit n 1)) (\<lambda>s'. pmv_insert_all s' rest)"
    by (simp add: PatternMatchVector_insert_def)
  have "push_bit 1 (push_bit n (1 :: u64)) = push_bit (Suc n) 1"
    by (simp add: push_bit_eq_mult)
  moreover have "pmv_insert_loop s' (push_bit (Suc n) 1) p = pmv_insert_all s' rest" for s'
    unfolding rest_def using Cons.prems by (intro Cons.IH) simp
  ultimately have "pmv_insert_loop s (push_bit n 1) (k # p)
      = and_then (pmv_or_mask s k (push_bit n 1)) (\<lambda>s'. pmv_insert_all s' rest)"
    by (simp only: pmv_insert_loop.simps)
  then show ?case
    by (simp only: up single)
qed

lemma bulk_as_single_inserts:
  assumes "length p \<le> 64"
  shows "PatternMatchVector_insert_seq s p = pmv_insert_all s (positions p)"
  using pmv_insert_loop_as_singles [of 0 p s] assms
  by (simp add: PatternMatchVector_insert_seq_def positions_def)

text \<open>A wide key inserted into the empty vector reads back exactly its bit.\<close>

lemma wide_key_on_empty:
  assumes "\<not> is_extended_ascii key" and "0 \<le> pos" and "pos < 64"
  shows "and_then (PatternMatchVector_insert PatternMatchVector_empty key pos)
           (\<lambda>s. PatternMatchVector_get s key) = Some (Inr (push_bit (nat pos) 1))"
proof -
  define c :: u64 where "c = word_of_int key"
  define m where "m = BitvectorHashmap_empty(unat c mod 128 :=
      \<lparr>elem_key = c, elem_value = push_bit (nat pos) 1\<rparr>)"
  have "lookup BitvectorHashmap_empty c = Some (Inr (unat c mod 128))"
    by (simp add: lookup_def slot_accepts_def BitvectorHashmap_empty_def)
  then have "insert_mask BitvectorHashmap_empty key (push_bit (nat pos) 1) = Some (Inr m)"
    by (simp add: insert_mask_def done_with_def c_def m_def BitvectorHashmap_empty_def)
  moreover have "lookup m c = Some (Inr (unat c mod 128))"
    by (simp add: lookup_def slot_accepts_def m_def)
  ultimately show ?thesis
    using assms
    by (simp add: PatternMatchVector_insert_def PatternMatchVector_get_def pmv_or_mask_def
        shl_one_def BitvectorHashmap_get_def PatternMatchVector_empty_def done_with_def c_def
        m_def)
qed

subsection \<open>What holds below the limit: two colliding keys\<close>

text \<open>Two distinct keys up to \<open>2\<^sup>6\<^sup>3 - 637\<close> inserted into the empty hashmap, at any
  positions, read back their own bit each; in particular two keys congruent modulo 128.\<close>

lemma two_keys_read_back:
  assumes safe: "probe_safe key1" "probe_safe key2" and ne: "key1 \<noteq> key2"
    and pos: "0 \<le> p1" "p1 < 64" "0 \<le> p2" "p2 < 64"
  shows "\<exists>m. and_then (BitvectorHashmap_insert BitvectorHashmap_empty key1 p1)
               (\<lambda>m1. BitvectorHashmap_insert m1 key2 p2) = Some (Inr m)
           \<and> BitvectorHashmap_get m key1 = Some (Inr (push_bit (nat p1) 1))
           \<and> BitvectorHashmap_get m key2 = Some (Inr (push_bit (nat p2) 1))"
proof -
  define c1 :: u64 where "c1 = word_of_int key1"
  define c2 :: u64 where "c2 = word_of_int key2"
  define b1 :: u64 where "b1 = push_bit (nat p1) 1"
  define b2 :: u64 where "b2 = push_bit (nat p2) 1"
  define h where "h = unat c1 mod 128"
  define m1 where "m1 = BitvectorHashmap_empty(h := \<lparr>elem_key = c1, elem_value = b1\<rparr>)"
  have c: "c1 \<noteq> c2"
    using safe_code_inj [OF safe(2), of key1] safe(1) ne
    by (auto simp: c1_def c2_def probe_safe_def is_char_code_def)
  have nz: "b1 \<noteq> 0" "b2 \<noteq> 0"
    using pos by (simp_all add: b1_def b2_def push_bit_eq_mult)
  have h: "h < 128"
    by (simp add: h_def)
  have s1: "shl_one p1 = Some (Inr b1)" and s2: "shl_one p2 = Some (Inr b2)"
    using pos by (simp_all add: shl_one_def done_with_def b1_def b2_def)
  have "lookup BitvectorHashmap_empty c1 = Some (Inr h)"
    by (simp add: lookup_def slot_accepts_def BitvectorHashmap_empty_def h_def)
  then have first: "insert_mask BitvectorHashmap_empty key1 b1 = Some (Inr m1)"
    by (simp add: insert_mask_def done_with_def c1_def m1_def BitvectorHashmap_empty_def)
  have l1: "lookup m1 c1 = Some (Inr h)"
    by (simp add: lookup_def slot_accepts_def m1_def h_def)
  obtain x where x: "x < 128" "x \<noteq> h"
    using h by (cases "h = 0") (auto intro: that [of 1] that [of 0])
  then have "slot_accepts m1 x c2"
    by (simp add: slot_accepts_def m1_def BitvectorHashmap_empty_def)
  from lookup_returns [OF safe(2) x(1)] this obtain j where j: "lookup m1 c2 = Some (Inr j)"
    unfolding c2_def by blast
  with lookup_accepts [OF j] c nz have jh: "j \<noteq> h"
    by (auto simp: slot_accepts_def m1_def)
  define m where "m = m1(j := \<lparr>elem_key = c2, elem_value = elem_value (m1 j) OR b2\<rparr>)"
  from j have second: "insert_mask m1 key2 b2 = Some (Inr m)"
    by (simp add: insert_mask_def done_with_def c2_def m_def)
  have v2: "elem_value (m1 j) = 0"
    using jh by (simp add: m1_def BitvectorHashmap_empty_def)
  have "lookup m c2 = Some (Inr j)"
    unfolding m_def by (rule lookup_after_store [OF j])
  then have g2: "BitvectorHashmap_get m key2 = Some (Inr b2)"
    by (simp add: BitvectorHashmap_get_def done_with_def c2_def [symmetric] m_def v2)
  have "lookup m c1 = Some (Inr h)"
    using jh by (simp add: lookup_def slot_accepts_def m_def m1_def h_def)
  then have g1: "BitvectorHashmap_get m key1 = Some (Inr b1)"
    using jh by (simp add: BitvectorHashmap_get_def done_with_def c1_def [symmetric] m_def m1_def)
  from first second s1 s2 have "and_then (BitvectorHashmap_insert BitvectorHashmap_empty key1 p1)
      (\<lambda>m1. BitvectorHashmap_insert m1 key2 p2) = Some (Inr m)"
    by (simp add: BitvectorHashmap_insert_def)
  with g1 g2 show ?thesis
    unfolding b1_def b2_def by blast
qed

subsection \<open>Block boundaries\<close>
























end
